theory Spec2Isabelle
  imports Complex_Main "HOL-Library.Word"
begin

section \<open>Numbers and bytes of the host language\<close>

text \<open>
  A JavaScript \<open>number\<close> is a binary64 value: not-a-number, an infinity, the
  negative zero, or the rational that a finite double denotes (\<open>Finite 0\<close> is the
  positive zero). The conversions that make a number (\<open>Number(text)\<close>, the
  \<open>DataView\<close> getters) round to that format, see \<open>to_binary64\<close> below. All integer
  conversions are the ones of ECMAScript (\<open>ToInt32\<close> and friends truncate towards zero
  and wrap, and send NaN, the infinities and both zeros to 0). A \<open>bigint\<close> is an
  \<open>int\<close>.
\<close>

datatype js_number = NaN | PosInf | NegInf | NegZero | Finite rat

type_synonym byte = "8 word"

definition js_trunc :: "rat \<Rightarrow> int" where
  "js_trunc r = (if 0 \<le> r then \<lfloor>r\<rfloor> else \<lceil>r\<rceil>)"

fun to_integer :: "js_number \<Rightarrow> int" where
  "to_integer (Finite r) = js_trunc r"
| "to_integer _ = 0"

definition to_uint8 :: "js_number \<Rightarrow> byte" where
  "to_uint8 v = word_of_int (to_integer v)"

definition number_of_int :: "int \<Rightarrow> js_number" where
  "number_of_int i = Finite (of_int i)"

text \<open>Big-endian byte sequences, as \<open>DataView\<close> writes and reads them.\<close>

fun be_bytes :: "nat \<Rightarrow> int \<Rightarrow> byte list" where
  "be_bytes 0 v = []"
| "be_bytes (Suc n) v = word_of_int (v div 256 ^ n) # be_bytes n v"

definition be_nat :: "byte list \<Rightarrow> int" where
  "be_nat bs = foldl (\<lambda>a b. a * 256 + uint b) 0 bs"

definition be_int :: "byte list \<Rightarrow> int" where
  "be_int bs = (let u = be_nat bs; w = 8 * length bs
                in if w \<noteq> 0 \<and> 2 ^ (w - 1) \<le> u then u - 2 ^ w else u)"

text \<open>
  \<open>Array.prototype.slice\<close> and \<open>TypedArray.prototype.slice\<close>: a negative index counts
  from the end, both indices are clamped to the array.
\<close>

definition js_slice :: "'a list \<Rightarrow> int \<Rightarrow> int \<Rightarrow> 'a list" where
  "js_slice xs start stop =
     (let n = int (length xs);
          k = (if start < 0 then max (n + start) 0 else min start n);
          e = (if stop < 0 then max (n + stop) 0 else min stop n)
      in take (nat (e - k)) (drop (nat k) xs))"

text \<open>
  A string is kept as the sequence of its UTF-8 bytes, one \<open>char\<close> per byte (a string
  with a lone surrogate has no such form and is outside the model). \<open>TextEncoder.encode\<close>
  then carries each character to its byte.

  \<open>TextDecoder.decode\<close> is the UTF-8 decoder of the Encoding Standard, without the
  \<open>fatal\<close> flag: a leading byte-order mark EF BB BF is dropped, and every maximal
  ill-formed part of the input gives one U+FFFD, which is EF BF BD. \<open>utf8_decode\<close> is
  the decoder outside a sequence; \<open>utf8_continue n lo hi seen\<close> is the decoder inside one,
  with \<open>n\<close> continuation bytes needed, the next of them bounded by \<open>lo\<close> and
  \<open>hi\<close>, and \<open>seen\<close> the bytes of the sequence read so far. A byte that cannot
  continue a sequence is decoded again on its own.
\<close>

definition text_encode :: "string \<Rightarrow> byte list" where
  "text_encode s = map (\<lambda>c. of_char c) s"

abbreviation REPLACEMENT :: "byte list" where
  "REPLACEMENT \<equiv> [0xEF, 0xBF, 0xBD]"

function utf8_decode :: "byte list \<Rightarrow> byte list"
  and utf8_continue :: "nat \<Rightarrow> byte \<Rightarrow> byte \<Rightarrow> byte list \<Rightarrow> byte list \<Rightarrow> byte list"
where
  "utf8_decode [] = []"
| "utf8_decode (b # bs) =
     (if b \<le> 0x7F then b # utf8_decode bs
      else if 0xC2 \<le> b \<and> b \<le> 0xDF then utf8_continue 1 0x80 0xBF [b] bs
      else if 0xE0 \<le> b \<and> b \<le> 0xEF
        then utf8_continue 2 (if b = 0xE0 then 0xA0 else 0x80) (if b = 0xED then 0x9F else 0xBF) [b] bs
      else if 0xF0 \<le> b \<and> b \<le> 0xF4
        then utf8_continue 3 (if b = 0xF0 then 0x90 else 0x80) (if b = 0xF4 then 0x8F else 0xBF) [b] bs
      else REPLACEMENT @ utf8_decode bs)"
| "utf8_continue n lo hi seen [] = REPLACEMENT"
| "utf8_continue n lo hi seen (b # bs) =
     (if b < lo \<or> hi < b then REPLACEMENT @ utf8_decode (b # bs)
      else if n \<le> 1 then seen @ [b] @ utf8_decode bs
      else utf8_continue (n - 1) 0x80 0xBF (seen @ [b]) bs)"
  by pat_completeness auto
termination
  by (relation "measure (\<lambda>x. case x of Inl bs \<Rightarrow> 2 * length bs
                                    | Inr (n, lo, hi, seen, bs) \<Rightarrow> 2 * length bs + 1)") auto

definition strip_bom :: "byte list \<Rightarrow> byte list" where
  "strip_bom bs = (if take 3 bs = [0xEF, 0xBB, 0xBF] then drop 3 bs else bs)"

definition text_decode :: "byte list \<Rightarrow> string" where
  "text_decode bs = map (\<lambda>b. char_of (unat b)) (utf8_decode (strip_bom bs))"

subsection \<open>IEEE 754 binary interchange formats\<close>

text \<open>
  \<open>DataView.setFloat32/64\<close> and \<open>getFloat32/64\<close> belong to the host, not to the
  library. They are modelled by the binary32 and binary64 formats with
  round-to-nearest, ties-to-even: \<open>ebits\<close> exponent bits, \<open>mbits\<close> fraction bits.
\<close>

definition pow2 :: "int \<Rightarrow> rat" where
  "pow2 e = (if 0 \<le> e then 2 ^ nat e else 1 / 2 ^ nat (- e))"

function bitlen :: "int \<Rightarrow> nat" where
  "bitlen n = (if n \<le> 0 then 0 else Suc (bitlen (n div 2)))"
  by pat_completeness auto
termination
  by (relation "measure nat") auto

declare bitlen.simps [simp del]

definition floor_log2 :: "rat \<Rightarrow> int" where
  "floor_log2 a =
     (let (p, q) = quotient_of a;
          e = int (bitlen p) - int (bitlen q)
      in if pow2 e \<le> a then e else e - 1)"

definition round_half_even :: "rat \<Rightarrow> int" where
  "round_half_even x =
     (let f = \<lfloor>x\<rfloor>; d = x - of_int f
      in if d < 1 / 2 then f else if 1 / 2 < d then f + 1
         else if even f then f else f + 1)"

definition ieee_finite :: "nat \<Rightarrow> nat \<Rightarrow> rat \<Rightarrow> int" where
  "ieee_finite ebits mbits a =
     (let bias = 2 ^ (ebits - 1) - 1;
          e0 = max (floor_log2 a) (1 - bias);
          m0 = round_half_even (a / pow2 (e0 - int mbits));
          e = (if 2 ^ (mbits + 1) \<le> m0 then e0 + 1 else e0);
          m = (if 2 ^ (mbits + 1) \<le> m0 then 2 ^ mbits else m0)
      in if bias < e then (2 ^ ebits - 1) * 2 ^ mbits
         else if m < 2 ^ mbits then m
         else (e + bias) * 2 ^ mbits + (m - 2 ^ mbits))"

fun ieee_encode :: "nat \<Rightarrow> nat \<Rightarrow> js_number \<Rightarrow> int" where
  "ieee_encode ebits mbits NaN = (2 ^ ebits - 1) * 2 ^ mbits + 2 ^ (mbits - 1)"
| "ieee_encode ebits mbits PosInf = (2 ^ ebits - 1) * 2 ^ mbits"
| "ieee_encode ebits mbits NegInf = 2 ^ (ebits + mbits) + (2 ^ ebits - 1) * 2 ^ mbits"
| "ieee_encode ebits mbits NegZero = 2 ^ (ebits + mbits)"
| "ieee_encode ebits mbits (Finite r) =
     (if r = 0 then 0
      else if r < 0 then 2 ^ (ebits + mbits) + ieee_finite ebits mbits (- r)
      else ieee_finite ebits mbits r)"

definition ieee_decode :: "nat \<Rightarrow> nat \<Rightarrow> int \<Rightarrow> js_number" where
  "ieee_decode ebits mbits bits =
     (let neg = (bits div 2 ^ (ebits + mbits)) mod 2 = 1;
          ex = (bits div 2 ^ mbits) mod 2 ^ ebits;
          mant = bits mod 2 ^ mbits;
          bias = 2 ^ (ebits - 1) - 1;
          mag = (if ex = 0 then of_int mant * pow2 (1 - bias - int mbits)
                 else of_int (2 ^ mbits + mant) * pow2 (ex - bias - int mbits))
      in if ex = 2 ^ ebits - 1
         then (if mant \<noteq> 0 then NaN else if neg then NegInf else PosInf)
         else if neg \<and> ex = 0 \<and> mant = 0 then NegZero
         else Finite (if neg then - mag else mag))"

text \<open>
  The double nearest to a rational (an infinity beyond the largest double), and the
  negation of a number.
\<close>

definition to_binary64 :: "rat \<Rightarrow> js_number" where
  "to_binary64 r = ieee_decode 11 52 (ieee_encode 11 52 (Finite r))"

fun js_negate :: "js_number \<Rightarrow> js_number" where
  "js_negate NaN = NaN"
| "js_negate PosInf = NegInf"
| "js_negate NegInf = PosInf"
| "js_negate NegZero = Finite 0"
| "js_negate (Finite r) = (if r = 0 then NegZero else Finite (- r))"

section \<open>The tagged value model (tags.ts, in src/unnamed/part_000)\<close>

text \<open>
  One constructor per tag class (the End id has no class: it only ends a compound). A
  \<open>CompoundTag\<close> holds a JavaScript \<open>Map\<close>: an association list in insertion order,
  whose keys a \<open>Map\<close> keeps distinct.
\<close>

datatype tag =
    ByteTag js_number
  | ShortTag js_number
  | IntTag js_number
  | LongTag int
  | FloatTag js_number
  | DoubleTag js_number
  | StringTag string
  | CompoundTag "(string \<times> tag) list"
  | ListTag "tag list"
  | ByteArrayTag "js_number list"
  | IntArrayTag "js_number list"
  | LongArrayTag "int list"

abbreviation TAG_End :: byte where "TAG_End \<equiv> 0"
abbreviation TAG_Byte :: byte where "TAG_Byte \<equiv> 1"
abbreviation TAG_Short :: byte where "TAG_Short \<equiv> 2"
abbreviation TAG_Int :: byte where "TAG_Int \<equiv> 3"
abbreviation TAG_Long :: byte where "TAG_Long \<equiv> 4"
abbreviation TAG_Float :: byte where "TAG_Float \<equiv> 5"
abbreviation TAG_Double :: byte where "TAG_Double \<equiv> 6"
abbreviation TAG_Byte_Array :: byte where "TAG_Byte_Array \<equiv> 7"
abbreviation TAG_String :: byte where "TAG_String \<equiv> 8"
abbreviation TAG_List :: byte where "TAG_List \<equiv> 9"
abbreviation TAG_Compound :: byte where "TAG_Compound \<equiv> 10"
abbreviation TAG_Int_Array :: byte where "TAG_Int_Array \<equiv> 11"
abbreviation TAG_Long_Array :: byte where "TAG_Long_Array \<equiv> 12"

fun getId :: "tag \<Rightarrow> byte" where
  "getId (ByteTag _) = TAG_Byte"
| "getId (ShortTag _) = TAG_Short"
| "getId (IntTag _) = TAG_Int"
| "getId (LongTag _) = TAG_Long"
| "getId (FloatTag _) = TAG_Float"
| "getId (DoubleTag _) = TAG_Double"
| "getId (StringTag _) = TAG_String"
| "getId (CompoundTag _) = TAG_Compound"
| "getId (ListTag _) = TAG_List"
| "getId (ByteArrayTag _) = TAG_Byte_Array"
| "getId (IntArrayTag _) = TAG_Int_Array"
| "getId (LongArrayTag _) = TAG_Long_Array"

text \<open>\<open>Map.has\<close> and \<open>Map.set\<close>: setting a present key keeps its place.\<close>

definition map_has :: "('k \<times> 'v) list \<Rightarrow> 'k \<Rightarrow> bool" where
  "map_has m k = (k \<in> set (map fst m))"

fun map_set :: "('k \<times> 'v) list \<Rightarrow> 'k \<Rightarrow> 'v \<Rightarrow> ('k \<times> 'v) list" where
  "map_set [] k v = [(k, v)]"
| "map_set ((k', v') # m) k v = (if k' = k then (k, v) # m else (k', v') # map_set m k v)"

text \<open>
  Everything the library or the host can throw. \<open>OutOfFuel\<close> is no error of the
  program: it marks a run of the model that was cut short.
\<close>

datatype error =
    UnexpectedEOF
  | ExpectedByte byte byte
  | CannotParseTag byte
  | DuplicateKey string
  | InvalidRoot byte
  | RangeError
  | TypeError
  | SyntaxError
  | UnexpectedChar char
  | ExpectedToken string "string option" string
  | ExpectedItem string
  | UnexpectedBoolean
  | BooleanAsFloat
  | ExpectedWhole
  | ExpectedFloating
  | ExpectedSuffix "string list" string
  | InvalidSuffix string
  | OutOfFuel

section \<open>The binary decoder (parser/nbt.ts, in src/unnamed/part_001)\<close>

text \<open>
  A \<open>Uint8Array\<close> is a window on an \<open>ArrayBuffer\<close>: the bytes of the buffer in front
  of the window (\<open>byteOffset\<close> many), the elements of the array, and the bytes of the
  buffer behind it. \<open>data.buffer\<close> is the whole buffer, \<open>data.length\<close> the number of
  elements. \<open>new Uint8Array(bytes)\<close> makes an array that spans a buffer of its own.
\<close>

record Uint8Array =
  bytes_before :: "byte list"
  elements :: "byte list"
  bytes_after :: "byte list"

definition array_buffer :: "Uint8Array \<Rightarrow> byte list" where
  "array_buffer a = bytes_before a @ elements a @ bytes_after a"

definition new_Uint8Array :: "byte list \<Rightarrow> Uint8Array" where
  "new_Uint8Array bs = \<lparr>bytes_before = [], elements = bs, bytes_after = []\<rparr>"

text \<open>
  The parser object: the input array and the read position. The position is an
  \<open>int\<close>, since a negative array length moves it backwards. The field \<open>dataView\<close>
  is \<open>new DataView(data.buffer)\<close>, a view of the whole buffer from its first byte, so it
  is not stored: a getter at offset \<open>i\<close> reads \<open>array_buffer (data p)\<close> at \<open>i\<close>,
  whatever the \<open>byteOffset\<close> of the array.
\<close>

record nbt_parser =
  data :: Uint8Array
  pos :: int

text \<open>
  \<open>data[pos]\<close>: \<open>undefined\<close> (here \<open>None\<close>) outside the array.
\<close>

definition data_at :: "nbt_parser \<Rightarrow> byte option" where
  "data_at p = (if 0 \<le> pos p \<and> pos p < int (length (elements (data p)))
                then Some (elements (data p) ! nat (pos p)) else None)"

definition expectByte :: "byte option \<Rightarrow> nbt_parser \<Rightarrow> error + (byte option \<times> nbt_parser)" where
  "expectByte val p =
     (if int (length (elements (data p))) \<le> pos p then Inl UnexpectedEOF
      else if val \<noteq> None \<and> val \<noteq> data_at p
        then (case data_at p of None \<Rightarrow> Inl TypeError
              | Some found \<Rightarrow> Inl (ExpectedByte (the val) found))
      else Inr (data_at p, p\<lparr>pos := pos p + 1\<rparr>))"

text \<open>
  The three fixed-width reads share their bounds check, which is against the length of
  the array; the \<open>DataView\<close> getter then throws a \<open>RangeError\<close> at a negative offset
  and at a read past the end of the buffer. \<open>view_get\<close> is that common part: it returns
  the bytes read and the parser after the read. The width is 2, 4 or 8 in every call (2
  or 4 bytes give a \<open>number\<close>, 8 bytes a \<open>bigint\<close>; both are integers here).
\<close>

definition view_get :: "nat \<Rightarrow> nbt_parser \<Rightarrow> error + (byte list \<times> nbt_parser)" where
  "view_get bytes p =
     (if int (length (elements (data p))) \<le> pos p + int bytes then Inl UnexpectedEOF
      else if pos p < 0 \<or> int (length (array_buffer (data p))) < pos p + int bytes
        then Inl RangeError
      else Inr (take bytes (drop (nat (pos p)) (array_buffer (data p))),
                p\<lparr>pos := pos p + int bytes\<rparr>))"

definition readInteger :: "nat \<Rightarrow> nbt_parser \<Rightarrow> error + (int \<times> nbt_parser)" where
  "readInteger bytes p =
     (case view_get bytes p of Inl e \<Rightarrow> Inl e | Inr (bs, p') \<Rightarrow> Inr (be_int bs, p'))"

definition readUnsignedInteger :: "nat \<Rightarrow> nbt_parser \<Rightarrow> error + (int \<times> nbt_parser)" where
  "readUnsignedInteger bytes p =
     (case view_get bytes p of Inl e \<Rightarrow> Inl e | Inr (bs, p') \<Rightarrow> Inr (be_nat bs, p'))"

definition readFLoat :: "nat \<Rightarrow> nbt_parser \<Rightarrow> error + (js_number \<times> nbt_parser)" where
  "readFLoat bytes p =
     (case view_get bytes p of Inl e \<Rightarrow> Inl e
      | Inr (bs, p') \<Rightarrow>
          Inr (if bytes = 4 then ieee_decode 8 23 (be_nat bs) else ieee_decode 11 52 (be_nat bs), p'))"

definition parseByteArray :: "nbt_parser \<Rightarrow> error + (tag \<times> nbt_parser)" where
  "parseByteArray p =
     (case readInteger 4 p of Inl e \<Rightarrow> Inl e
      | Inr (len, p1) \<Rightarrow>
          if int (length (elements (data p1))) \<le> pos p1 + len then Inl UnexpectedEOF
          else let p2 = p1\<lparr>pos := pos p1 + len\<rparr>
               in Inr (ByteArrayTag (map (\<lambda>b. number_of_int (uint b))
                                      (js_slice (elements (data p2)) (pos p2 - len) (pos p2))), p2))"

text \<open>The counted loop of \<open>parseIntArray\<close> and \<open>parseLongArray\<close>: \<open>n\<close> reads are left.\<close>

fun readIntegers :: "nat \<Rightarrow> nat \<Rightarrow> nbt_parser \<Rightarrow> int list \<Rightarrow> error + (int list \<times> nbt_parser)" where
  "readIntegers bytes 0 p items = Inr (items, p)"
| "readIntegers bytes (Suc n) p items =
     (case readInteger bytes p of Inl e \<Rightarrow> Inl e
      | Inr (v, p') \<Rightarrow> readIntegers bytes n p' (items @ [v]))"

definition parseIntArray :: "nbt_parser \<Rightarrow> error + (tag \<times> nbt_parser)" where
  "parseIntArray p =
     (case readInteger 4 p of Inl e \<Rightarrow> Inl e
      | Inr (len, p1) \<Rightarrow>
          (case readIntegers 4 (nat len) p1 [] of Inl e \<Rightarrow> Inl e
           | Inr (items, p2) \<Rightarrow> Inr (IntArrayTag (map number_of_int items), p2)))"

definition parseLongArray :: "nbt_parser \<Rightarrow> error + (tag \<times> nbt_parser)" where
  "parseLongArray p =
     (case readInteger 4 p of Inl e \<Rightarrow> Inl e
      | Inr (len, p1) \<Rightarrow>
          (case readIntegers 8 (nat len) p1 [] of Inl e \<Rightarrow> Inl e
           | Inr (items, p2) \<Rightarrow> Inr (LongArrayTag items, p2)))"

definition parseString :: "nbt_parser \<Rightarrow> error + (string \<times> nbt_parser)" where
  "parseString p =
     (case readUnsignedInteger 2 p of Inl e \<Rightarrow> Inl e
      | Inr (len, p1) \<Rightarrow>
          if int (length (elements (data p1))) \<le> pos p1 + len then Inl UnexpectedEOF
          else let p2 = p1\<lparr>pos := pos p1 + len\<rparr>
               in Inr (text_decode (js_slice (elements (data p2)) (pos p2 - len) (pos p2)), p2))"

text \<open>
  The test of \<open>parseList\<close> on each item: a compound whose only key is the empty
  string; and the unwrapping \<open>it.get("")\<close> of such an item.
\<close>

fun isDynamicItem :: "tag \<Rightarrow> bool" where
  "isDynamicItem (CompoundTag [(k, v)]) = (k = [])"
| "isDynamicItem _ = False"

fun unwrapItem :: "tag \<Rightarrow> tag" where
  "unwrapItem (CompoundTag ((k, v) # _)) = v"
| "unwrapItem t = t"

text \<open>
  \<open>parseFromTagType\<close>, \<open>parseList\<close> and \<open>parseCompound\<close> call each other;
  \<open>parseListItems\<close> is the item loop of \<open>parseList\<close> (\<open>n\<close> items are left) and
  \<open>parseCompoundLoop\<close> the entry loop of \<open>parseCompound\<close>. The recursion need not
  end (a negative byte-array length sends the parser back over bytes it has read), so every
  call takes fuel, and \<open>OutOfFuel\<close> stands for a run that has not returned yet. A Byte
  read in front of the array is \<open>undefined\<close>, which every numeric use turns into NaN.
\<close>

fun parseFromTagType :: "nat \<Rightarrow> byte option \<Rightarrow> nbt_parser \<Rightarrow> error + (tag \<times> nbt_parser)"
  and parseList :: "nat \<Rightarrow> nbt_parser \<Rightarrow> error + (tag \<times> nbt_parser)"
  and parseListItems :: "nat \<Rightarrow> byte option \<Rightarrow> nat \<Rightarrow> nbt_parser \<Rightarrow> tag list
        \<Rightarrow> error + (tag list \<times> nbt_parser)"
  and parseCompound :: "nat \<Rightarrow> nbt_parser \<Rightarrow> error + (tag \<times> nbt_parser)"
  and parseCompoundLoop :: "nat \<Rightarrow> nbt_parser \<Rightarrow> (string \<times> tag) list
        \<Rightarrow> error + (tag \<times> nbt_parser)"
where
  "parseFromTagType 0 tagId p = Inl OutOfFuel"
| "parseFromTagType (Suc fuel) tagId p =
     (if tagId = Some TAG_Byte then
        (case expectByte None p of Inl e \<Rightarrow> Inl e
         | Inr (b, p') \<Rightarrow> Inr (ByteTag (case b of None \<Rightarrow> NaN | Some x \<Rightarrow> number_of_int (uint x)), p'))
      else if tagId = Some TAG_Short then
        (case readInteger 2 p of Inl e \<Rightarrow> Inl e | Inr (v, p') \<Rightarrow> Inr (ShortTag (number_of_int v), p'))
      else if tagId = Some TAG_Int then
        (case readInteger 4 p of Inl e \<Rightarrow> Inl e | Inr (v, p') \<Rightarrow> Inr (IntTag (number_of_int v), p'))
      else if tagId = Some TAG_Long then
        (case readInteger 8 p of Inl e \<Rightarrow> Inl e | Inr (v, p') \<Rightarrow> Inr (LongTag v, p'))
      else if tagId = Some TAG_Float then
        (case readFLoat 4 p of Inl e \<Rightarrow> Inl e | Inr (v, p') \<Rightarrow> Inr (FloatTag v, p'))
      else if tagId = Some TAG_Double then
        (case readFLoat 8 p of Inl e \<Rightarrow> Inl e | Inr (v, p') \<Rightarrow> Inr (DoubleTag v, p'))
      else if tagId = Some TAG_Byte_Array then parseByteArray p
      else if tagId = Some TAG_Int_Array then parseIntArray p
      else if tagId = Some TAG_Long_Array then parseLongArray p
      else if tagId = Some TAG_String then
        (case parseString p of Inl e \<Rightarrow> Inl e | Inr (s, p') \<Rightarrow> Inr (StringTag s, p'))
      else if tagId = Some TAG_List then parseList fuel p
      else if tagId = Some TAG_Compound then parseCompound fuel p
      else (case tagId of None \<Rightarrow> Inl TypeError | Some t \<Rightarrow> Inl (CannotParseTag t)))"
| "parseList 0 p = Inl OutOfFuel"
| "parseList (Suc fuel) p =
     (case expectByte None p of Inl e \<Rightarrow> Inl e
      | Inr (tagId, p1) \<Rightarrow>
          (case readInteger 4 p1 of Inl e \<Rightarrow> Inl e
           | Inr (len, p2) \<Rightarrow>
               (case parseListItems fuel tagId (nat len) p2 [] of Inl e \<Rightarrow> Inl e
                | Inr (items, p3) \<Rightarrow>
                    if list_all isDynamicItem items
                    then Inr (ListTag (map unwrapItem items), p3)
                    else Inr (ListTag items, p3))))"
| "parseListItems 0 tagId n p items = Inl OutOfFuel"
| "parseListItems (Suc fuel) tagId 0 p items = Inr (items, p)"
| "parseListItems (Suc fuel) tagId (Suc n) p items =
     (case parseFromTagType fuel tagId p of Inl e \<Rightarrow> Inl e
      | Inr (item, p') \<Rightarrow> parseListItems fuel tagId n p' (items @ [item]))"
| "parseCompound 0 p = Inl OutOfFuel"
| "parseCompound (Suc fuel) p = parseCompoundLoop fuel p []"
| "parseCompoundLoop 0 p items = Inl OutOfFuel"
| "parseCompoundLoop (Suc fuel) p items =
     (case expectByte None p of Inl e \<Rightarrow> Inl e
      | Inr (tagId, p1) \<Rightarrow>
          if tagId = Some TAG_End then Inr (CompoundTag items, p1)
          else
            (case parseString p1 of Inl e \<Rightarrow> Inl e
             | Inr (name, p2) \<Rightarrow>
                 (case parseFromTagType fuel tagId p2 of Inl e \<Rightarrow> Inl e
                  | Inr (v, p3) \<Rightarrow>
                      if map_has items name then Inl (DuplicateKey name)
                      else parseCompoundLoop fuel p3 (map_set items name v))))"

text \<open>\<open>NBTParser.parse\<close> on a fresh parser, which is \<open>parseNBT\<close> of index.ts.\<close>

definition parse :: "nat \<Rightarrow> nbt_parser \<Rightarrow> error + tag" where
  "parse fuel p =
     (case expectByte None p of Inl e \<Rightarrow> Inl e
      | Inr (tagId, p1) \<Rightarrow>
          if tagId = Some TAG_End then Inl (InvalidRoot TAG_End)
          else
            (case parseString p1 of Inl e \<Rightarrow> Inl e
             | Inr (name, p2) \<Rightarrow>
                 (case parseFromTagType fuel tagId p2 of Inl e \<Rightarrow> Inl e
                  | Inr (v, p3) \<Rightarrow> Inr (CompoundTag [(name, v)]))))"

definition parseNBT :: "nat \<Rightarrow> Uint8Array \<Rightarrow> error + tag" where
  "parseNBT fuel bytes = parse fuel \<lparr>data = bytes, pos = 0\<rparr>"

section \<open>The binary encoder (dump.ts, the second part of src/src/util.ts)\<close>

text \<open>
  \<open>DumpContext\<close>: the output array, the write position, and the \<open>DataView\<close> on the
  array. The view always lies over the current array from offset 0, so only its
  \<open>byteLength\<close> is kept, in \<open>view\<close>.
\<close>

record DumpContext =
  buffer :: "byte list"
  pointer :: nat
  view :: nat

definition newDumpContext :: DumpContext where
  "newDumpContext = \<lparr>buffer = replicate 256 0, pointer = 0, view = 256\<rparr>"

definition growBuffer :: "DumpContext \<Rightarrow> nat \<Rightarrow> DumpContext" where
  "growBuffer ctx bytes =
     (if length (buffer ctx) \<le> pointer ctx + bytes
      then ctx\<lparr>buffer := buffer ctx @ replicate (length (buffer ctx)) 0, view := 0\<rparr>
      else ctx)"

definition write_bytes :: "byte list \<Rightarrow> nat \<Rightarrow> byte list \<Rightarrow> byte list" where
  "write_bytes buf off bs = take off buf @ bs @ drop (off + length bs) buf"

text \<open>A \<open>DataView\<close> setter: a \<open>RangeError\<close> unless the bytes fit in the view.\<close>

definition view_set :: "DumpContext \<Rightarrow> nat \<Rightarrow> byte list \<Rightarrow> error + DumpContext" where
  "view_set ctx off bs =
     (if view ctx < off + length bs then Inl RangeError
      else Inr (ctx\<lparr>buffer := write_bytes (buffer ctx) off bs\<rparr>))"

definition dumpInteger :: "DumpContext \<Rightarrow> nat \<Rightarrow> int \<Rightarrow> error + DumpContext" where
  "dumpInteger ctx bytes v =
     (let c1 = growBuffer ctx bytes; c2 = c1\<lparr>pointer := pointer c1 + bytes\<rparr>
      in if bytes = 2 \<or> bytes = 4 \<or> bytes = 8
         then view_set c2 (pointer c2 - bytes) (be_bytes bytes v)
         else Inr c2)"

definition dumpUnsignedInteger :: "DumpContext \<Rightarrow> nat \<Rightarrow> int \<Rightarrow> error + DumpContext" where
  "dumpUnsignedInteger ctx bytes v =
     (let c1 = growBuffer ctx bytes; c2 = c1\<lparr>pointer := pointer c1 + bytes\<rparr>
      in if bytes = 2 \<or> bytes = 4 \<or> bytes = 8
         then view_set c2 (pointer c2 - bytes) (be_bytes bytes v)
         else Inr c2)"

definition dumpFloat :: "DumpContext \<Rightarrow> nat \<Rightarrow> js_number \<Rightarrow> error + DumpContext" where
  "dumpFloat ctx bytes v =
     (let c1 = growBuffer ctx bytes; c2 = c1\<lparr>pointer := pointer c1 + bytes\<rparr>
      in if bytes = 4 then view_set c2 (pointer c2 - bytes) (be_bytes 4 (ieee_encode 8 23 v))
         else if bytes = 8 then view_set c2 (pointer c2 - bytes) (be_bytes 8 (ieee_encode 11 52 v))
         else Inr c2)"

text \<open>\<open>TypedArray.set\<close> throws a \<open>RangeError\<close> unless the source fits behind the offset.\<close>

definition dumpRaw :: "DumpContext \<Rightarrow> byte list \<Rightarrow> error + DumpContext" where
  "dumpRaw ctx bs =
     (let c1 = growBuffer ctx (length bs)
      in if length (buffer c1) < pointer c1 + length bs then Inl RangeError
         else Inr (c1\<lparr>buffer := write_bytes (buffer c1) (pointer c1) bs,
                      pointer := pointer c1 + length bs\<rparr>))"

definition dumpString :: "DumpContext \<Rightarrow> string \<Rightarrow> error + DumpContext" where
  "dumpString ctx text =
     (let bs = text_encode text
      in case dumpUnsignedInteger ctx 2 (int (length bs)) of Inl e \<Rightarrow> Inl e
         | Inr c1 \<Rightarrow> dumpRaw c1 bs)"

text \<open>A store into a typed array beyond its end is dropped, as \<open>xs[i := v]\<close> does.\<close>

definition dumpByte :: "DumpContext \<Rightarrow> byte \<Rightarrow> DumpContext" where
  "dumpByte ctx b =
     (let c1 = growBuffer ctx 1
      in c1\<lparr>buffer := (buffer c1)[pointer c1 := b], pointer := pointer c1 + 1\<rparr>)"

definition final :: "DumpContext \<Rightarrow> byte list" where
  "final ctx = take (pointer ctx) (buffer ctx)"

definition dumpByteArray :: "DumpContext \<Rightarrow> js_number list \<Rightarrow> error + DumpContext" where
  "dumpByteArray ctx vs =
     (case dumpInteger ctx 4 (int (length vs)) of Inl e \<Rightarrow> Inl e
      | Inr c1 \<Rightarrow> dumpRaw c1 (map to_uint8 vs))"

fun dumpIntegers :: "DumpContext \<Rightarrow> nat \<Rightarrow> int list \<Rightarrow> error + DumpContext" where
  "dumpIntegers ctx bytes [] = Inr ctx"
| "dumpIntegers ctx bytes (v # vs) =
     (case dumpInteger ctx bytes v of Inl e \<Rightarrow> Inl e | Inr c1 \<Rightarrow> dumpIntegers c1 bytes vs)"

definition dumpIntArray :: "DumpContext \<Rightarrow> js_number list \<Rightarrow> error + DumpContext" where
  "dumpIntArray ctx vs =
     (case dumpInteger ctx 4 (int (length vs)) of Inl e \<Rightarrow> Inl e
      | Inr c1 \<Rightarrow> dumpIntegers c1 4 (map to_integer vs))"

definition dumpLongArray :: "DumpContext \<Rightarrow> int list \<Rightarrow> error + DumpContext" where
  "dumpLongArray ctx vs =
     (case dumpInteger ctx 4 (int (length vs)) of Inl e \<Rightarrow> Inl e
      | Inr c1 \<Rightarrow> dumpIntegers c1 8 vs)"

text \<open>The scan of \<open>dumpList\<close> over the element ids.\<close>

definition listValueId :: "tag list \<Rightarrow> byte" where
  "listValueId vs = (case vs of [] \<Rightarrow> TAG_End | v # _ \<Rightarrow> getId v)"

definition listSameType :: "tag list \<Rightarrow> bool" where
  "listSameType vs = (case vs of [] \<Rightarrow> True | v # rest \<Rightarrow> list_all (\<lambda>x. getId x = getId v) rest)"

text \<open>
  The measure of the encoder's recursion. \<open>dumpList\<close> builds a one-entry compound around
  an element before it encodes it, so an element weighs less inside a list than the
  wrapper does.
\<close>

fun weight :: "tag \<Rightarrow> nat" where
  "weight (ListTag vs) = 5 + sum_list (map (\<lambda>v. weight v + 1) vs)"
| "weight (CompoundTag kvs) = 2 + sum_list (map (\<lambda>kv. weight (snd kv) + 1) kvs)"
| "weight _ = 0"

text \<open>
  \<open>dumpTagValue\<close> with \<open>dumpList\<close>, \<open>dumpCompound\<close> and their loops: \<open>dumpValues\<close> is
  the loop of the same-type branch, \<open>dumpWrapped\<close> the loop of the mixed branch,
  \<open>dumpEntries\<close> the loop over the keys of a compound (a \<open>Map\<close> gives each key once,
  with its value).
\<close>

function dumpTagValue :: "DumpContext \<Rightarrow> tag \<Rightarrow> error + DumpContext"
  and dumpList :: "DumpContext \<Rightarrow> tag list \<Rightarrow> error + DumpContext"
  and dumpValues :: "DumpContext \<Rightarrow> tag list \<Rightarrow> error + DumpContext"
  and dumpWrapped :: "DumpContext \<Rightarrow> tag list \<Rightarrow> error + DumpContext"
  and dumpCompound :: "DumpContext \<Rightarrow> (string \<times> tag) list \<Rightarrow> error + DumpContext"
  and dumpEntries :: "DumpContext \<Rightarrow> (string \<times> tag) list \<Rightarrow> error + DumpContext"
where
  "dumpTagValue ctx (ByteTag v) = Inr (dumpByte ctx (to_uint8 v))"
| "dumpTagValue ctx (ShortTag v) = dumpInteger ctx 2 (to_integer v)"
| "dumpTagValue ctx (IntTag v) = dumpInteger ctx 4 (to_integer v)"
| "dumpTagValue ctx (LongTag v) = dumpInteger ctx 8 v"
| "dumpTagValue ctx (FloatTag v) = dumpFloat ctx 4 v"
| "dumpTagValue ctx (DoubleTag v) = dumpFloat ctx 8 v"
| "dumpTagValue ctx (ByteArrayTag vs) = dumpByteArray ctx vs"
| "dumpTagValue ctx (IntArrayTag vs) = dumpIntArray ctx vs"
| "dumpTagValue ctx (LongArrayTag vs) = dumpLongArray ctx vs"
| "dumpTagValue ctx (StringTag s) = dumpString ctx s"
| "dumpTagValue ctx (ListTag vs) = dumpList ctx vs"
| "dumpTagValue ctx (CompoundTag kvs) = dumpCompound ctx kvs"
| "dumpList ctx vs =
     (if listSameType vs then
        (case dumpInteger (dumpByte ctx (listValueId vs)) 4 (int (length vs)) of Inl e \<Rightarrow> Inl e
         | Inr c1 \<Rightarrow> dumpValues c1 vs)
      else
        (case dumpInteger (dumpByte ctx TAG_Compound) 4 (int (length vs)) of Inl e \<Rightarrow> Inl e
         | Inr c1 \<Rightarrow> dumpWrapped c1 vs))"
| "dumpValues ctx [] = Inr ctx"
| "dumpValues ctx (v # vs) =
     (case dumpTagValue ctx v of Inl e \<Rightarrow> Inl e | Inr c1 \<Rightarrow> dumpValues c1 vs)"
| "dumpWrapped ctx [] = Inr ctx"
| "dumpWrapped ctx (v # vs) =
     (case dumpTagValue ctx (CompoundTag [([], v)]) of Inl e \<Rightarrow> Inl e
      | Inr c1 \<Rightarrow> dumpWrapped c1 vs)"
| "dumpCompound ctx kvs =
     (case dumpEntries ctx kvs of Inl e \<Rightarrow> Inl e | Inr c1 \<Rightarrow> Inr (dumpByte c1 TAG_End))"
| "dumpEntries ctx [] = Inr ctx"
| "dumpEntries ctx ((k, v) # kvs) =
     (case dumpString (dumpByte ctx (getId v)) k of Inl e \<Rightarrow> Inl e
      | Inr c1 \<Rightarrow>
          (case dumpTagValue c1 v of Inl e \<Rightarrow> Inl e | Inr c2 \<Rightarrow> dumpEntries c2 kvs))"
  by pat_completeness auto
termination
  by (relation "measure (\<lambda>x. case x of
        Inl (Inl (ctx, t)) \<Rightarrow> weight t
      | Inl (Inr (Inl (ctx, vs))) \<Rightarrow> 4 + sum_list (map (\<lambda>v. weight v + 1) vs)
      | Inl (Inr (Inr (ctx, vs))) \<Rightarrow> sum_list (map (\<lambda>v. weight v + 1) vs)
      | Inr (Inl (ctx, vs)) \<Rightarrow> 3 + sum_list (map (\<lambda>v. weight v + 1) vs)
      | Inr (Inr (Inl (ctx, kvs))) \<Rightarrow> 1 + sum_list (map (\<lambda>kv. weight (snd kv) + 1) kvs)
      | Inr (Inr (Inr (ctx, kvs))) \<Rightarrow> sum_list (map (\<lambda>kv. weight (snd kv) + 1) kvs))")
     auto

definition dumpTag :: "DumpContext \<Rightarrow> tag \<Rightarrow> error + DumpContext" where
  "dumpTag ctx t = dumpTagValue (dumpByte ctx (getId t)) t"

text \<open>
  \<open>NBTDumper.dump\<close>, which is \<open>dump\<close> of index.ts. The first branch is taken by a
  compound with one key; it writes the id of the root itself.
\<close>

definition dump :: "tag \<Rightarrow> error + byte list" where
  "dump t =
     (case
        (case t of
           CompoundTag [(name, v)] \<Rightarrow>
             (case dumpString (dumpByte newDumpContext (getId t)) name of Inl e \<Rightarrow> Inl e
              | Inr c1 \<Rightarrow> dumpTagValue c1 v)
         | _ \<Rightarrow>
             (case dumpString (dumpByte newDumpContext TAG_Compound) [] of Inl e \<Rightarrow> Inl e
              | Inr c1 \<Rightarrow> dumpTag c1 t))
      of Inl e \<Rightarrow> Inl e | Inr ctx \<Rightarrow> Inr (final ctx))"

section \<open>The textual lexer (src/src/parser/snbt.ts)\<close>

text \<open>
  The lexer reads its source one code unit at a time and compares each unit with ASCII
  characters only. A byte of the UTF-8 form of a character outside ASCII fails every one
  of these tests, as the UTF-16 units of that character do, so the lexer is run on the
  UTF-8 bytes of the source, in keeping with the strings of the tags; positions then
  count bytes, and the unexpected-character error names a byte.
\<close>

datatype TokenKind = EOF | NUMBER | SUFFIX | STRING | BOOLEAN | DELIMITER

datatype Token = Token (kind: TokenKind) (tvalue: string)

abbreviation BACKSLASH :: char where "BACKSLASH \<equiv> CHR 0x5C"
abbreviation DQUOTE :: char where "DQUOTE \<equiv> CHR 0x22"
abbreviation SQUOTE :: char where "SQUOTE \<equiv> CHR 0x27"

definition CONSTANT_TOKENS :: "char list" where
  "CONSTANT_TOKENS = [CHR ''{'', CHR ''}'', CHR ''['', CHR '']'', CHR '':'', CHR '','', CHR '';'']"

text \<open>The table of the source: lower-case \<open>d\<close> stands in it twice, upper-case \<open>D\<close> not at all.\<close>

definition NUMBER_SUFFIXES :: "char list" where
  "NUMBER_SUFFIXES =
     [CHR ''b'', CHR ''B'', CHR ''s'', CHR ''S'', CHR ''i'', CHR ''I'',
      CHR ''l'', CHR ''L'', CHR ''f'', CHR ''F'', CHR ''d'', CHR ''d'']"

definition SKIP_CHARS :: "char list" where
  "SKIP_CHARS = [CHR '' '', CHR 0x09, CHR 0x0A, CHR 0x0D]"

definition IDENTIFIER_OTHER :: "char list" where
  "IDENTIFIER_OTHER = [CHR ''_'', CHR ''-'', CHR ''.'', CHR ''+'']"

definition charCode :: "char \<Rightarrow> nat" where
  "charCode c = of_char c"

definition isDigit :: "char \<Rightarrow> bool" where
  "isDigit c = (charCode (CHR ''0'') \<le> charCode c \<and> charCode c \<le> charCode (CHR ''9''))"

definition isIdentifierChar :: "char \<Rightarrow> bool" where
  "isIdentifierChar c =
     ((charCode (CHR ''a'') \<le> charCode c \<and> charCode c \<le> charCode (CHR ''z'')) \<or>
      (charCode (CHR ''A'') \<le> charCode c \<and> charCode c \<le> charCode (CHR ''Z'')) \<or>
      c \<in> set IDENTIFIER_OTHER)"

record Lexer =
  source :: string
  lex_pos :: nat
  lastNumber :: int

definition newLexer :: "string \<Rightarrow> Lexer" where
  "newLexer src = \<lparr>source = src, lex_pos = 0, lastNumber = - 777\<rparr>"

text \<open>
  The three scanning loops of \<open>Lexer.next\<close>. A read behind the end of the source gives
  \<open>NaN\<close> or \<open>undefined\<close> in JavaScript, which fails every test of the loops: the
  bound is written out.
\<close>

function numberLoop :: "string \<Rightarrow> nat \<Rightarrow> string \<Rightarrow> bool \<Rightarrow> string \<times> nat" where
  "numberLoop src i content isFloat =
     (if i < length src \<and> (isDigit (src ! i) \<or> (\<not> isFloat \<and> src ! i = CHR ''.''))
      then numberLoop src (i + 1) (content @ [src ! i]) (isFloat \<or> src ! i = CHR ''.'')
      else (content, i))"
  by pat_completeness auto
termination
  by (relation "measure (\<lambda>(src, i, content, isFloat). length src - i)") auto

declare numberLoop.simps [simp del]

function identifierLoop :: "string \<Rightarrow> nat \<Rightarrow> nat" where
  "identifierLoop src i =
     (if i < length src \<and> isIdentifierChar (src ! i) then identifierLoop src (i + 1) else i)"
  by pat_completeness auto
termination
  by (relation "measure (\<lambda>(src, i). length src - i)") auto

declare identifierLoop.simps [simp del]

function quotedLoop :: "string \<Rightarrow> nat \<Rightarrow> char \<Rightarrow> string \<Rightarrow> error + (string \<times> nat)" where
  "quotedLoop src i opener content =
     (if length src \<le> i then Inl UnexpectedEOF
      else if src ! i = BACKSLASH \<and> length src \<le> i + 1 then Inl UnexpectedEOF
      else if src ! i = BACKSLASH \<and> (src ! (i + 1) = DQUOTE \<or> src ! (i + 1) = SQUOTE)
        then quotedLoop src (i + 2) opener (content @ [opener])
      else if src ! i = opener then Inr (content, i)
      else quotedLoop src (i + 1) opener (content @ [src ! i]))"
  by pat_completeness auto
termination
  by (relation "measure (\<lambda>(src, i, opener, content). length src - i)") auto

declare quotedLoop.simps [simp del]

definition substring :: "string \<Rightarrow> nat \<Rightarrow> nat \<Rightarrow> string" where
  "substring src start stop = take (stop - start) (drop start src)"

function lexer_next :: "Lexer \<Rightarrow> error + (Token \<times> Lexer)" where
  "lexer_next lx =
     (if length (source lx) \<le> lex_pos lx then Inr (Token EOF [], lx)
      else
        let c = source lx ! lex_pos lx in
        if c \<in> set SKIP_CHARS then lexer_next (lx\<lparr>lex_pos := lex_pos lx + 1\<rparr>)
        else if c \<in> set CONSTANT_TOKENS
          then Inr (Token DELIMITER [c], lx\<lparr>lex_pos := lex_pos lx + 1\<rparr>)
        else if lastNumber lx = int (lex_pos lx) - 1 \<and> c \<in> set NUMBER_SUFFIXES
          then Inr (Token SUFFIX [c], lx\<lparr>lex_pos := lex_pos lx + 1\<rparr>)
        else if c = CHR ''+'' \<or> c = CHR ''-'' \<or> isDigit c
          then (case numberLoop (source lx) (lex_pos lx + 1) [c] False of
                  (content, i) \<Rightarrow>
                    Inr (Token NUMBER content, lx\<lparr>lex_pos := i, lastNumber := int i - 1\<rparr>))
        else if isIdentifierChar c
          then (let i = identifierLoop (source lx) (lex_pos lx);
                    v = substring (source lx) (lex_pos lx) i
                in Inr (Token (if v = ''true'' \<or> v = ''false'' then BOOLEAN else STRING) v,
                        lx\<lparr>lex_pos := i\<rparr>))
        else if c = DQUOTE \<or> c = SQUOTE
          then (case quotedLoop (source lx) (lex_pos lx + 1) c [] of
                  Inl e \<Rightarrow> Inl e
                | Inr (content, i) \<Rightarrow> Inr (Token STRING content, lx\<lparr>lex_pos := i + 1\<rparr>))
        else Inl (UnexpectedChar c))"
  by pat_completeness auto
termination
  by (relation "measure (\<lambda>lx. length (source lx) - lex_pos lx)") auto

declare lexer_next.simps [simp del]

section \<open>The textual parser (src/src/parser/snbt.ts)\<close>

text \<open>
  \<open>Number(text)\<close> and \<open>BigInt(text)\<close> of the host, on the texts a number token can
  hold: an optional sign, digits, and at most one point. \<open>Number\<close> gives \<open>NaN\<close> for a
  text without a digit, and else the double nearest to the decimal value (the negative zero
  for a zero behind a minus sign); \<open>BigInt\<close> throws a \<open>SyntaxError\<close> for a text that
  is not a signed run of digits.
\<close>

definition digits_val :: "string \<Rightarrow> int" where
  "digits_val ds = foldl (\<lambda>a c. 10 * a + int (charCode c - charCode (CHR ''0''))) 0 ds"

definition unsigned_Number :: "string \<Rightarrow> rat option" where
  "unsigned_Number body =
     (let ip = takeWhile isDigit body; rest = dropWhile isDigit body
      in case rest of
           [] \<Rightarrow> if ip = [] then None else Some (of_int (digits_val ip))
         | c # fp \<Rightarrow>
             if c = CHR ''.'' \<and> list_all isDigit fp \<and> (ip \<noteq> [] \<or> fp \<noteq> [])
             then Some (of_int (digits_val ip) + of_int (digits_val fp) / 10 ^ length fp)
             else None)"

definition js_Number :: "string \<Rightarrow> js_number" where
  "js_Number s =
     (case s of
        c # body \<Rightarrow>
          if c = CHR ''-''
            then (case unsigned_Number body of None \<Rightarrow> NaN | Some r \<Rightarrow> js_negate (to_binary64 r))
          else if c = CHR ''+''
            then (case unsigned_Number body of None \<Rightarrow> NaN | Some r \<Rightarrow> to_binary64 r)
          else (case unsigned_Number s of None \<Rightarrow> NaN | Some r \<Rightarrow> to_binary64 r)
      | [] \<Rightarrow> Finite 0)"

definition unsigned_BigInt :: "string \<Rightarrow> error + int" where
  "unsigned_BigInt ds =
     (if ds \<noteq> [] \<and> list_all isDigit ds then Inr (digits_val ds) else Inl SyntaxError)"

definition js_BigInt :: "string \<Rightarrow> error + int" where
  "js_BigInt s =
     (case s of
        c # body \<Rightarrow>
          if c = CHR ''-'' then (case unsigned_BigInt body of Inl e \<Rightarrow> Inl e | Inr i \<Rightarrow> Inr (- i))
          else if c = CHR ''+'' then unsigned_BigInt body
          else unsigned_BigInt s
      | [] \<Rightarrow> Inr 0)"

record SNBTParser =
  lexer :: Lexer
  current :: Token

definition matches :: "SNBTParser \<Rightarrow> TokenKind \<Rightarrow> string option \<Rightarrow> bool" where
  "matches p k v = (kind (current p) = k \<and> (v = None \<or> v = Some [] \<or> Some (tvalue (current p)) = v))"

definition kindName :: "TokenKind \<Rightarrow> string" where
  "kindName k = (case k of EOF \<Rightarrow> ''EOF'' | NUMBER \<Rightarrow> ''NUMBER'' | SUFFIX \<Rightarrow> ''SUFFIX''
                 | STRING \<Rightarrow> ''STRING'' | BOOLEAN \<Rightarrow> ''BOOLEAN'' | DELIMITER \<Rightarrow> ''DELIMITER'')"

definition eat :: "SNBTParser \<Rightarrow> TokenKind \<Rightarrow> string option \<Rightarrow> error + (Token \<times> SNBTParser)" where
  "eat p k v =
     (if \<not> matches p k v then Inl (ExpectedToken (kindName k) v (tvalue (current p)))
      else case lexer_next (lexer p) of Inl e \<Rightarrow> Inl e
           | Inr (tok, lx) \<Rightarrow> Inr (current p, p\<lparr>lexer := lx, current := tok\<rparr>))"

datatype NumberKind = KindInt | KindFloat

definition eatNumberSuffixes :: "SNBTParser \<Rightarrow> NumberKind \<Rightarrow> string list \<Rightarrow> error + (string \<times> SNBTParser)" where
  "eatNumberSuffixes p k suffixes =
     (if matches p BOOLEAN None then
        (if ''b'' \<notin> set suffixes \<and> ''B'' \<notin> set suffixes then Inl UnexpectedBoolean
         else if k = KindFloat then Inl BooleanAsFloat
         else case eat p BOOLEAN None of Inl e \<Rightarrow> Inl e
              | Inr (tok, p1) \<Rightarrow> Inr (if tvalue tok = ''true'' then ''1'' else ''0'', p1))
      else
        case eat p NUMBER None of Inl e \<Rightarrow> Inl e
        | Inr (number, p1) \<Rightarrow>
            if k = KindInt \<and> CHR ''.'' \<in> set (tvalue number) then Inl ExpectedWhole
            else if k = KindFloat \<and> CHR ''.'' \<notin> set (tvalue number) then Inl ExpectedFloating
            else
              case (if \<not> matches p1 SUFFIX None
                    then Inr (if CHR ''.'' \<in> set (tvalue number) then ''f'' else ''i'', p1)
                    else case eat p1 SUFFIX None of Inl e \<Rightarrow> Inl e
                         | Inr (tok, p2) \<Rightarrow> Inr (tvalue tok, p2))
              of Inl e \<Rightarrow> Inl e
              | Inr (suffix, p2) \<Rightarrow>
                  if suffix \<notin> set suffixes then Inl (ExpectedSuffix suffixes suffix)
                  else Inr (tvalue number, p2))"

definition parseNumber :: "SNBTParser \<Rightarrow> error + (tag \<times> SNBTParser)" where
  "parseNumber p =
     (case eat p NUMBER None of Inl e \<Rightarrow> Inl e
      | Inr (number, p1) \<Rightarrow>
          let v = js_Number (tvalue number) in
          if \<not> matches p1 SUFFIX None then
            (if CHR ''.'' \<in> set (tvalue number) then Inr (FloatTag v, p1) else Inr (IntTag v, p1))
          else
            case eat p1 SUFFIX None of Inl e \<Rightarrow> Inl e
            | Inr (suffix, p2) \<Rightarrow>
                if tvalue suffix = ''b'' \<or> tvalue suffix = ''B'' then Inr (ByteTag v, p2)
                else if tvalue suffix = ''s'' \<or> tvalue suffix = ''S'' then Inr (ShortTag v, p2)
                else if tvalue suffix = ''i'' \<or> tvalue suffix = ''I'' then Inr (IntTag v, p2)
                else if tvalue suffix = ''l'' \<or> tvalue suffix = ''L'' then
                  (case js_BigInt (tvalue number) of Inl e \<Rightarrow> Inl e | Inr i \<Rightarrow> Inr (LongTag i, p2))
                else if tvalue suffix = ''f'' \<or> tvalue suffix = ''F'' then Inr (FloatTag v, p2)
                else if tvalue suffix = ''d'' \<or> tvalue suffix = ''D'' then Inr (DoubleTag v, p2)
                else Inl (InvalidSuffix (tvalue suffix)))"

definition snbt_parseString :: "SNBTParser \<Rightarrow> error + (tag \<times> SNBTParser)" where
  "snbt_parseString p =
     (case eat p STRING None of Inl e \<Rightarrow> Inl e | Inr (tok, p1) \<Rightarrow> Inr (StringTag (tvalue tok), p1))"

definition parseBoolean :: "SNBTParser \<Rightarrow> error + (tag \<times> SNBTParser)" where
  "parseBoolean p =
     (case eat p BOOLEAN None of Inl e \<Rightarrow> Inl e
      | Inr (tok, p1) \<Rightarrow> Inr (ByteTag (Finite (if tvalue tok = ''true'' then 1 else 0)), p1))"

text \<open>
  The array \<open>items\<close> of \<open>parseList\<close> holds numbers, bigints or tags, by the array type;
  the casts at its end are unchecked, as the partial projections here are.
\<close>

datatype list_item = NumberItem js_number | BigIntItem int | TagItem tag

fun the_number :: "list_item \<Rightarrow> js_number" where
  "the_number (NumberItem n) = n"

fun the_bigint :: "list_item \<Rightarrow> int" where
  "the_bigint (BigIntItem i) = i"

fun the_tag :: "list_item \<Rightarrow> tag" where
  "the_tag (TagItem t) = t"

text \<open>
  \<open>parseItem\<close>, \<open>parseList\<close> and \<open>parseCompound\<close> of the textual parser, with
  the loops of the latter two; the flag of each loop is \<open>first\<close>. Every call takes fuel,
  as in the binary decoder.
\<close>

fun parseItem :: "nat \<Rightarrow> SNBTParser \<Rightarrow> error + (tag \<times> SNBTParser)"
  and snbt_parseList :: "nat \<Rightarrow> SNBTParser \<Rightarrow> error + (tag \<times> SNBTParser)"
  and snbt_parseListLoop :: "nat \<Rightarrow> SNBTParser \<Rightarrow> string option \<Rightarrow> list_item list \<Rightarrow> bool
        \<Rightarrow> error + (list_item list \<times> SNBTParser)"
  and snbt_parseCompound :: "nat \<Rightarrow> SNBTParser \<Rightarrow> error + (tag \<times> SNBTParser)"
  and snbt_parseCompoundLoop :: "nat \<Rightarrow> SNBTParser \<Rightarrow> (string \<times> tag) list \<Rightarrow> bool
        \<Rightarrow> error + ((string \<times> tag) list \<times> SNBTParser)"
where
  "parseItem 0 p = Inl OutOfFuel"
| "parseItem (Suc fuel) p =
     (if matches p NUMBER None then parseNumber p
      else if matches p STRING None then snbt_parseString p
      else if matches p BOOLEAN None then parseBoolean p
      else if matches p DELIMITER (Some ''['') then snbt_parseList fuel p
      else if matches p DELIMITER (Some ''{'') then snbt_parseCompound fuel p
      else Inl (ExpectedItem (tvalue (current p))))"
| "snbt_parseList 0 p = Inl OutOfFuel"
| "snbt_parseList (Suc fuel) p =
     (case eat p DELIMITER (Some ''['') of Inl e \<Rightarrow> Inl e
      | Inr (_, p1) \<Rightarrow>
          (case (if kind (current p1) = STRING \<and>
                    (tvalue (current p1) = ''B'' \<or> tvalue (current p1) = ''I'' \<or> tvalue (current p1) = ''L'')
                 then (case eat p1 STRING None of Inl e \<Rightarrow> Inl e
                       | Inr (tok, p2) \<Rightarrow>
                           (case eat p2 DELIMITER (Some '';'') of Inl e \<Rightarrow> Inl e
                            | Inr (_, p3) \<Rightarrow> Inr (Some (tvalue tok), p3)))
                 else Inr (None, p1))
           of Inl e \<Rightarrow> Inl e
           | Inr (arrayType, p4) \<Rightarrow>
               (case snbt_parseListLoop fuel p4 arrayType [] True of Inl e \<Rightarrow> Inl e
                | Inr (items, p5) \<Rightarrow>
                    (case eat p5 DELIMITER (Some '']'') of Inl e \<Rightarrow> Inl e
                     | Inr (_, p6) \<Rightarrow>
                         if arrayType = Some ''B'' then Inr (ByteArrayTag (map the_number items), p6)
                         else if arrayType = Some ''I'' then Inr (IntArrayTag (map the_number items), p6)
                         else if arrayType = Some ''L'' then Inr (LongArrayTag (map the_bigint items), p6)
                         else Inr (ListTag (map the_tag items), p6)))))"
| "snbt_parseListLoop 0 p arrayType items first = Inl OutOfFuel"
| "snbt_parseListLoop (Suc fuel) p arrayType items first =
     (if matches p DELIMITER (Some '']'') then Inr (items, p)
      else
        case (if \<not> first then (case eat p DELIMITER (Some '','') of Inl e \<Rightarrow> Inl e
                                | Inr (_, p1) \<Rightarrow> Inr p1)
              else Inr p)
        of Inl e \<Rightarrow> Inl e
        | Inr p1 \<Rightarrow>
            case (if arrayType = Some ''B'' then
                    (case eatNumberSuffixes p1 KindInt [''b'', ''B''] of Inl e \<Rightarrow> Inl e
                     | Inr (s, p2) \<Rightarrow> Inr (NumberItem (js_Number s), p2))
                  else if arrayType = Some ''I'' then
                    (case eatNumberSuffixes p1 KindInt [''b'', ''B'', ''s'', ''S'', ''i'', ''I''] of
                       Inl e \<Rightarrow> Inl e
                     | Inr (s, p2) \<Rightarrow> Inr (NumberItem (js_Number s), p2))
                  else if arrayType = Some ''L'' then
                    (case eatNumberSuffixes p1 KindInt
                            [''b'', ''B'', ''s'', ''S'', ''i'', ''I'', ''l'', ''L''] of
                       Inl e \<Rightarrow> Inl e
                     | Inr (s, p2) \<Rightarrow>
                         (case js_BigInt s of Inl e \<Rightarrow> Inl e | Inr i \<Rightarrow> Inr (BigIntItem i, p2)))
                  else
                    (case parseItem fuel p1 of Inl e \<Rightarrow> Inl e
                     | Inr (t, p2) \<Rightarrow> Inr (TagItem t, p2)))
            of Inl e \<Rightarrow> Inl e
            | Inr (item, p2) \<Rightarrow> snbt_parseListLoop fuel p2 arrayType (items @ [item]) False)"
| "snbt_parseCompound 0 p = Inl OutOfFuel"
| "snbt_parseCompound (Suc fuel) p =
     (case eat p DELIMITER (Some ''{'') of Inl e \<Rightarrow> Inl e
      | Inr (_, p1) \<Rightarrow>
          (case snbt_parseCompoundLoop fuel p1 [] True of Inl e \<Rightarrow> Inl e
           | Inr (items, p2) \<Rightarrow>
               (case eat p2 DELIMITER (Some ''}'') of Inl e \<Rightarrow> Inl e
                | Inr (_, p3) \<Rightarrow> Inr (CompoundTag items, p3))))"
| "snbt_parseCompoundLoop 0 p items first = Inl OutOfFuel"
| "snbt_parseCompoundLoop (Suc fuel) p items first =
     (if matches p DELIMITER (Some ''}'') then Inr (items, p)
      else
        case (if \<not> first then (case eat p DELIMITER (Some '','') of Inl e \<Rightarrow> Inl e
                                | Inr (_, p1) \<Rightarrow> Inr p1)
              else Inr p)
        of Inl e \<Rightarrow> Inl e
        | Inr p1 \<Rightarrow>
            (case eat p1 STRING None of Inl e \<Rightarrow> Inl e
             | Inr (key, p2) \<Rightarrow>
                 (case eat p2 DELIMITER (Some '':'') of Inl e \<Rightarrow> Inl e
                  | Inr (_, p3) \<Rightarrow>
                      (case parseItem fuel p3 of Inl e \<Rightarrow> Inl e
                       | Inr (v, p4) \<Rightarrow>
                           snbt_parseCompoundLoop fuel p4 (map_set items (tvalue key) v) False))))"

text \<open>
  The constructor of \<open>SNBTParser\<close> reads the first token; \<open>parse\<close> is one \<open>parseItem\<close>.
  \<open>parseSNBT\<close> of index.ts is both.
\<close>

definition newSNBTParser :: "string \<Rightarrow> error + SNBTParser" where
  "newSNBTParser src =
     (case lexer_next (newLexer src) of Inl e \<Rightarrow> Inl e
      | Inr (tok, lx) \<Rightarrow> Inr \<lparr>lexer = lx, current = tok\<rparr>)"

definition snbt_parse :: "nat \<Rightarrow> SNBTParser \<Rightarrow> error + tag" where
  "snbt_parse fuel p = (case parseItem fuel p of Inl e \<Rightarrow> Inl e | Inr (t, _) \<Rightarrow> Inr t)"

definition parseSNBT :: "nat \<Rightarrow> string \<Rightarrow> error + tag" where
  "parseSNBT fuel src =
     (case newSNBTParser src of Inl e \<Rightarrow> Inl e | Inr p \<Rightarrow> snbt_parse fuel p)"

section \<open>Vocabulary of the statements\<close>

text \<open>What is left of the source of a lexer, and the bytes a decoder has not read.\<close>

definition remaining :: "Lexer \<Rightarrow> string" where
  "remaining lx = drop (lex_pos lx) (source lx)"


text \<open>
  The body of a quoted string (the text between its delimiters) and the token value it
  stands for, with the opening delimiter \<open>q\<close>: a backslash before either quote character
  gives the opening delimiter, every other character gives itself. \<open>closed_body\<close> says
  that the body holds no delimiter outside an escape and does not end in a backslash, so
  the string ends where the body does.
\<close>

fun unescape :: "char \<Rightarrow> string \<Rightarrow> string" where
  "unescape q (c # d # r) =
     (if c = BACKSLASH \<and> (d = DQUOTE \<or> d = SQUOTE) then q # unescape q r
      else c # unescape q (d # r))"
| "unescape q cs = cs"

fun closed_body :: "char \<Rightarrow> string \<Rightarrow> bool" where
  "closed_body q (c # d # r) =
     (if c = BACKSLASH \<and> (d = DQUOTE \<or> d = SQUOTE) then closed_body q r
      else c \<noteq> q \<and> closed_body q (d # r))"
| "closed_body q [c] = (c \<noteq> q \<and> c \<noteq> BACKSLASH)"
| "closed_body q [] = True"

text \<open>
  The reading of the specification: only a backslash before the opening delimiter itself
  is an escape.
\<close>

fun claimed_unescape :: "char \<Rightarrow> string \<Rightarrow> string" where
  "claimed_unescape q (c # d # r) =
     (if c = BACKSLASH \<and> d = q then q # claimed_unescape q r
      else c # claimed_unescape q (d # r))"
| "claimed_unescape q cs = cs"

text \<open>A word the lexer reads as one identifier-shaped token.\<close>

definition identifier_word :: "string \<Rightarrow> bool" where
  "identifier_word w =
     (w \<noteq> [] \<and> list_all isIdentifierChar w \<and> hd w \<noteq> CHR ''+'' \<and> hd w \<noteq> CHR ''-'')"


text \<open>
  The first element of \<open>xs\<close> that is in \<open>seen\<close> or occurs earlier in \<open>xs\<close>.
\<close>

fun first_duplicate :: "'a list \<Rightarrow> 'a list \<Rightarrow> 'a option" where
  "first_duplicate seen [] = None"
| "first_duplicate seen (x # xs) =
     (if x \<in> set seen then Some x else first_duplicate (seen @ [x]) xs)"



text \<open>\<open>Map.set\<close> of every entry of a list, in its order.\<close>

definition map_set_all :: "('k \<times> 'v) list \<Rightarrow> ('k \<times> 'v) list \<Rightarrow> ('k \<times> 'v) list" where
  "map_set_all m es = foldl (\<lambda>m (k, v). map_set m k v) m es"






section \<open>Facts about the building blocks\<close>

lemma length_be_bytes: "length (be_bytes n v) = n"
  by (induction n) auto

lemma length_write_bytes:
  "off + length bs \<le> length buf \<Longrightarrow> length (write_bytes buf off bs) = length buf"
  by (simp add: write_bytes_def)

lemma drop_eq_ConsD:
  "drop i xs = c # r \<Longrightarrow> i < length xs \<and> xs ! i = c \<and> drop (Suc i) xs = r"
proof -
  assume d: "drop i xs = c # r"
  have lt: "i < length xs"
  proof (rule ccontr)
    assume "\<not> i < length xs"
    then have "drop i xs = []" by simp
    with d show False by simp
  qed
  have "xs ! i = hd (drop i xs)" using lt by (simp add: hd_drop_conv_nth)
  moreover have "drop (Suc i) xs = tl (drop i xs)" by (simp add: drop_Suc tl_drop)
  ultimately show ?thesis using d lt by simp
qed

subsection \<open>Compounds as ordered maps\<close>


lemma map_set_absent: "\<not> map_has m k \<Longrightarrow> map_set m k v = m @ [(k, v)]"
  by (induction m) (auto simp: map_has_def)




lemma parseCompoundLoop_distinct:
  "parseCompoundLoop fuel p items = Inr (t, p') \<Longrightarrow> distinct (map fst items)
   \<Longrightarrow> \<exists>kvs. t = CompoundTag kvs \<and> distinct (map fst kvs)"
proof (induction fuel arbitrary: p items)
  case 0
  then show ?case by simp
next
  case (Suc fuel)
  from Suc.prems show ?case
    by (auto simp: map_set_absent map_has_def split: sum.splits prod.splits if_splits
        dest!: Suc.IH)
qed



lemma map_set_all_simps:
  "map_set_all m [] = m"
  "map_set_all m ((k, v) # es) = map_set_all (map_set m k v) es"
  by (simp_all add: map_set_all_def)





lemma map_set_all_no_duplicate:
  "first_duplicate (map fst m) (map fst es) = None \<Longrightarrow> map_set_all m es = m @ es"
proof (induction es arbitrary: m)
  case Nil
  show ?case by (simp add: map_set_all_simps)
next
  case (Cons e es)
  obtain k v where e: "e = (k, v)" by (cases e)
  from Cons.prems e have nk: "\<not> map_has m k"
    and rest: "first_duplicate (map fst (m @ [(k, v)])) (map fst es) = None"
    by (auto simp: map_has_def split: if_splits)
  from Cons.IH [OF rest] nk show ?case by (simp add: e map_set_all_simps map_set_absent)
qed

subsection \<open>The binary decoder on a known layout\<close>






subsection \<open>The scanning loops of the lexer\<close>

lemma identifierLoop_run:
  "drop i src = w @ r \<Longrightarrow> list_all isIdentifierChar w
   \<Longrightarrow> r = [] \<or> \<not> isIdentifierChar (hd r)
   \<Longrightarrow> identifierLoop src i = i + length w"
proof (induction w arbitrary: i)
  case Nil
  show ?case
  proof (cases r)
    case Nil
    with Nil.prems have "length src \<le> i" by simp
    then show ?thesis by (subst identifierLoop.simps) simp
  next
    case (Cons c r')
    with Nil.prems have "i < length src \<and> src ! i = c \<and> drop (Suc i) src = r'"
      by (intro drop_eq_ConsD) simp
    moreover from Cons Nil.prems have "\<not> isIdentifierChar c" by simp
    ultimately show ?thesis by (subst identifierLoop.simps) simp
  qed
next
  case (Cons c w)
  from Cons.prems have d: "i < length src \<and> src ! i = c \<and> drop (Suc i) src = w @ r"
    by (intro drop_eq_ConsD) simp
  from Cons.prems have c: "isIdentifierChar c" and w: "list_all isIdentifierChar w" by simp_all
  have "identifierLoop src i = identifierLoop src (i + 1)"
    using d c by (subst identifierLoop.simps) simp
  also have "\<dots> = (i + 1) + length w"
    using d w Cons.prems(3) by (intro Cons.IH) simp_all
  finally show ?case by simp
qed

lemma numberLoop_digits:
  "drop i src = ds @ r \<Longrightarrow> list_all isDigit ds
   \<Longrightarrow> numberLoop src i content fl = numberLoop src (i + length ds) (content @ ds) fl"
proof (induction ds arbitrary: i content)
  case Nil
  show ?case by simp
next
  case (Cons c ds)
  from Cons.prems have d: "i < length src \<and> src ! i = c \<and> drop (Suc i) src = ds @ r"
    by (intro drop_eq_ConsD) simp
  from Cons.prems have c: "isDigit c" and ds: "list_all isDigit ds" by simp_all
  from c have nodot: "c \<noteq> CHR ''.''" by (auto simp: isDigit_def charCode_def)
  have "numberLoop src i content fl = numberLoop src (i + 1) (content @ [c]) fl"
    using d c nodot by (subst numberLoop.simps) simp
  also have "\<dots> = numberLoop src (i + 1 + length ds) ((content @ [c]) @ ds) fl"
    using d ds by (intro Cons.IH) simp_all
  finally show ?case by simp
qed

lemma numberLoop_dot:
  "drop i src = CHR ''.'' # r
   \<Longrightarrow> numberLoop src i content False = numberLoop src (i + 1) (content @ ''.'') True"
proof -
  assume "drop i src = CHR ''.'' # r"
  then have "i < length src \<and> src ! i = CHR ''.'' \<and> drop (Suc i) src = r"
    by (rule drop_eq_ConsD)
  then show ?thesis by (subst numberLoop.simps) simp
qed

lemma numberLoop_stop:
  "drop i src = r \<Longrightarrow> r = [] \<or> (\<not> isDigit (hd r) \<and> (fl \<or> hd r \<noteq> CHR ''.''))
   \<Longrightarrow> numberLoop src i content fl = (content, i)"
proof (cases r)
  case Nil
  assume "drop i src = r"
  with Nil have "length src \<le> i" by simp
  then show ?thesis by (subst numberLoop.simps) simp
next
  case (Cons c r')
  assume "drop i src = r" and stop: "r = [] \<or> (\<not> isDigit (hd r) \<and> (fl \<or> hd r \<noteq> CHR ''.''))"
  with Cons have "i < length src \<and> src ! i = c \<and> drop (Suc i) src = r'"
    by (intro drop_eq_ConsD) simp
  moreover from Cons stop have "\<not> isDigit c \<and> (fl \<or> c \<noteq> CHR ''.'')" by simp
  ultimately show ?thesis by (subst numberLoop.simps) auto
qed

lemma quotedLoop_run:
  "q = DQUOTE \<or> q = SQUOTE \<Longrightarrow> closed_body q body \<Longrightarrow> drop i src = body @ q # r
   \<Longrightarrow> quotedLoop src i q content = Inr (content @ unescape q body, i + length body)"
proof (induction q body arbitrary: i content rule: closed_body.induct)
  case (1 q c d r')
  from "1.prems"(3) have dc: "i < length src \<and> src ! i = c \<and> drop (Suc i) src = d # r' @ q # r"
    by (intro drop_eq_ConsD) simp
  then have dd: "Suc i < length src \<and> src ! Suc i = d \<and> drop (Suc (Suc i)) src = r' @ q # r"
    by (intro drop_eq_ConsD) simp
  show ?case
  proof (cases "c = BACKSLASH \<and> (d = DQUOTE \<or> d = SQUOTE)")
    case True
    with "1.prems" have cb: "closed_body q r'" by simp
    have "quotedLoop src i q content = quotedLoop src (i + 2) q (content @ [q])"
      using dc dd True by (subst quotedLoop.simps) auto
    also have "\<dots> = Inr ((content @ [q]) @ unescape q r', (i + 2) + length r')"
      using "1.prems"(1) cb dd True by (intro "1.IH"(1)) simp_all
    finally show ?thesis using True by simp
  next
    case False
    with "1.prems" have cq: "c \<noteq> q" and cb: "closed_body q (d # r')" by simp_all
    have "quotedLoop src i q content = quotedLoop src (i + 1) q (content @ [c])"
      using dc dd False cq by (subst quotedLoop.simps) auto
    also have "\<dots> = Inr ((content @ [c]) @ unescape q (d # r'), (i + 1) + length (d # r'))"
      using "1.prems"(1) cb dc False by (intro "1.IH"(2)) simp_all
    finally show ?thesis using False by auto
  qed
next
  case (2 q c)
  from "2.prems"(3) have dc: "i < length src \<and> src ! i = c \<and> drop (Suc i) src = q # r"
    by (intro drop_eq_ConsD) simp
  then have dq: "Suc i < length src \<and> src ! Suc i = q \<and> drop (Suc (Suc i)) src = r"
    by (intro drop_eq_ConsD) simp
  from "2.prems" have c: "c \<noteq> q" "c \<noteq> BACKSLASH" by simp_all
  from "2.prems"(1) have q: "q \<noteq> BACKSLASH" by auto
  have "quotedLoop src i q content = quotedLoop src (i + 1) q (content @ [c])"
    using dc c by (subst quotedLoop.simps) auto
  also have "\<dots> = Inr (content @ [c], i + 1)"
    using dq q by (subst quotedLoop.simps) auto
  finally show ?case by simp
next
  case (3 q)
  from "3.prems"(3) have dq: "i < length src \<and> src ! i = q \<and> drop (Suc i) src = r"
    by (intro drop_eq_ConsD) simp
  from "3.prems"(1) have q: "q \<noteq> BACKSLASH" by auto
  show ?case using dq q by (subst quotedLoop.simps) auto
qed

lemma remaining_advance:
  "remaining (lx\<lparr>lex_pos := lex_pos lx + n\<rparr>) = drop n (remaining lx)"
  by (simp add: remaining_def add.commute)

lemma remaining_ConsD:
  "remaining lx = c # r \<Longrightarrow>
     lex_pos lx < length (source lx) \<and> source lx ! lex_pos lx = c"
  unfolding remaining_def by (drule drop_eq_ConsD) simp


lemma lexer_next_skip:
  "remaining lx = c # r \<Longrightarrow> c \<in> set SKIP_CHARS
   \<Longrightarrow> lexer_next lx = lexer_next (lx\<lparr>lex_pos := lex_pos lx + 1\<rparr>)"
  by (drule remaining_ConsD, subst lexer_next.simps) (simp add: Let_def)


lemma lexer_next_suffix:
  "remaining lx = c # r \<Longrightarrow> c \<in> set NUMBER_SUFFIXES \<Longrightarrow> lastNumber lx = int (lex_pos lx) - 1
   \<Longrightarrow> lexer_next lx = Inr (Token SUFFIX [c], lx\<lparr>lex_pos := lex_pos lx + 1\<rparr>)"
  by (drule remaining_ConsD, subst lexer_next.simps)
     (auto simp: Let_def CONSTANT_TOKENS_def SKIP_CHARS_def NUMBER_SUFFIXES_def)

lemma lexer_next_quoted:
  assumes q: "q = DQUOTE \<or> q = SQUOTE" and body: "closed_body q body"
    and rem: "remaining lx = q # body @ q # r"
  shows "lexer_next lx
    = Inr (Token STRING (unescape q body), lx\<lparr>lex_pos := lex_pos lx + length body + 2\<rparr>)"
proof -
  from rem have at: "lex_pos lx < length (source lx) \<and> source lx ! lex_pos lx = q"
    by (rule remaining_ConsD)
  from rem have "drop (Suc (lex_pos lx)) (source lx) = body @ q # r"
    unfolding remaining_def by (auto dest: drop_eq_ConsD)
  then have "drop (lex_pos lx + 1) (source lx) = body @ q # r" by simp
  with q body have loop:
    "quotedLoop (source lx) (lex_pos lx + 1) q [] = Inr ([] @ unescape q body, lex_pos lx + 1 + length body)"
    by (intro quotedLoop_run)
  from q have "q \<notin> set SKIP_CHARS" "q \<notin> set CONSTANT_TOKENS" "q \<notin> set NUMBER_SUFFIXES"
    "q \<noteq> CHR ''+''" "q \<noteq> CHR ''-''" "\<not> isDigit q" "\<not> isIdentifierChar q"
    by (auto simp: SKIP_CHARS_def CONSTANT_TOKENS_def NUMBER_SUFFIXES_def isDigit_def
        isIdentifierChar_def IDENTIFIER_OTHER_def charCode_def)
  with at q loop show ?thesis
    by (subst lexer_next.simps) (auto simp: Let_def)
qed

lemma digit_facts:
  "isDigit c \<Longrightarrow> c \<notin> set SKIP_CHARS \<and> c \<notin> set CONSTANT_TOKENS \<and> c \<notin> set NUMBER_SUFFIXES
     \<and> c \<noteq> CHR ''.''"
  by (auto simp: isDigit_def charCode_def SKIP_CHARS_def CONSTANT_TOKENS_def NUMBER_SUFFIXES_def)

lemma lexer_next_integer:
  assumes rem: "remaining lx = c # ds @ r"
    and c: "isDigit c" and ds: "list_all isDigit ds"
    and r: "r = [] \<or> (\<not> isDigit (hd r) \<and> hd r \<noteq> CHR ''.'')"
  shows "lexer_next lx = Inr (Token NUMBER (c # ds),
           lx\<lparr>lex_pos := lex_pos lx + 1 + length ds,
               lastNumber := int (lex_pos lx + 1 + length ds) - 1\<rparr>)"
proof -
  from rem have at: "lex_pos lx < length (source lx) \<and> source lx ! lex_pos lx = c"
    by (rule remaining_ConsD)
  from rem have "drop (Suc (lex_pos lx)) (source lx) = ds @ r"
    unfolding remaining_def by (auto dest: drop_eq_ConsD)
  then have d1: "drop (lex_pos lx + 1) (source lx) = ds @ r" by simp
  then have d2: "drop (lex_pos lx + 1 + length ds) (source lx) = r"
    by (metis add.commute append_eq_conv_conj drop_drop)
  have "numberLoop (source lx) (lex_pos lx + 1) [c] False
        = numberLoop (source lx) (lex_pos lx + 1 + length ds) ([c] @ ds) False"
    using d1 ds by (rule numberLoop_digits)
  also have "\<dots> = ([c] @ ds, lex_pos lx + 1 + length ds)"
    using d2 r by (intro numberLoop_stop) auto
  finally have loop: "numberLoop (source lx) (lex_pos lx + 1) [c] False
        = (c # ds, lex_pos lx + 1 + length ds)" by simp
  from at digit_facts [OF c] c loop show ?thesis
    by (subst lexer_next.simps) (simp add: Let_def)
qed

lemma lexer_next_float:
  assumes rem: "remaining lx = c # ds @ CHR ''.'' # fs @ r"
    and c: "isDigit c" and ds: "list_all isDigit ds" and fs: "list_all isDigit fs"
    and r: "r = [] \<or> \<not> isDigit (hd r)"
  shows "lexer_next lx = Inr (Token NUMBER (c # ds @ CHR ''.'' # fs),
           lx\<lparr>lex_pos := lex_pos lx + 2 + length ds + length fs,
               lastNumber := int (lex_pos lx + 2 + length ds + length fs) - 1\<rparr>)"
proof -
  from rem have at: "lex_pos lx < length (source lx) \<and> source lx ! lex_pos lx = c"
    by (rule remaining_ConsD)
  from rem have "drop (Suc (lex_pos lx)) (source lx) = ds @ CHR ''.'' # fs @ r"
    unfolding remaining_def by (auto dest: drop_eq_ConsD)
  then have d1: "drop (lex_pos lx + 1) (source lx) = ds @ CHR ''.'' # fs @ r" by simp
  then have d2: "drop (lex_pos lx + 1 + length ds) (source lx) = CHR ''.'' # fs @ r"
    by (metis add.commute append_eq_conv_conj drop_drop)
  then have "drop (Suc (lex_pos lx + 1 + length ds)) (source lx) = fs @ r"
    by (auto dest: drop_eq_ConsD)
  then have d3: "drop (lex_pos lx + 1 + length ds + 1) (source lx) = fs @ r" by simp
  then have d4: "drop (lex_pos lx + 1 + length ds + 1 + length fs) (source lx) = r"
    by (metis add.commute append_eq_conv_conj drop_drop)
  have "numberLoop (source lx) (lex_pos lx + 1) [c] False
        = numberLoop (source lx) (lex_pos lx + 1 + length ds) ([c] @ ds) False"
    using d1 ds by (rule numberLoop_digits)
  also have "\<dots> = numberLoop (source lx) (lex_pos lx + 1 + length ds + 1) (([c] @ ds) @ ''.'') True"
    using d2 by (rule numberLoop_dot)
  also have "\<dots> = numberLoop (source lx) (lex_pos lx + 1 + length ds + 1 + length fs)
                      ((([c] @ ds) @ ''.'') @ fs) True"
    using d3 fs by (rule numberLoop_digits)
  also have "\<dots> = ((([c] @ ds) @ ''.'') @ fs, lex_pos lx + 1 + length ds + 1 + length fs)"
    using d4 r by (intro numberLoop_stop) auto
  finally have loop: "numberLoop (source lx) (lex_pos lx + 1) [c] False
        = (c # ds @ CHR ''.'' # fs, lex_pos lx + 2 + length ds + length fs)" by simp
  from at digit_facts [OF c] c loop show ?thesis
    by (subst lexer_next.simps) (simp add: Let_def)
qed

lemma identifier_char_facts:
  "isIdentifierChar c \<Longrightarrow> c \<notin> set SKIP_CHARS \<and> c \<notin> set CONSTANT_TOKENS \<and> \<not> isDigit c"
  by (auto simp: isIdentifierChar_def isDigit_def charCode_def SKIP_CHARS_def
      CONSTANT_TOKENS_def IDENTIFIER_OTHER_def)

lemma lexer_next_identifier:
  assumes rem: "remaining lx = w @ r" and w: "identifier_word w"
    and r: "r = [] \<or> \<not> isIdentifierChar (hd r)"
    and ln: "lastNumber lx \<noteq> int (lex_pos lx) - 1 \<or> hd w \<notin> set NUMBER_SUFFIXES"
  shows "lexer_next lx
    = Inr (Token (if w = ''true'' \<or> w = ''false'' then BOOLEAN else STRING) w,
           lx\<lparr>lex_pos := lex_pos lx + length w\<rparr>)"
proof -
  from w obtain c w' where cw: "w = c # w'" by (cases w) (auto simp: identifier_word_def)
  with rem have "remaining lx = c # w' @ r" by simp
  then have at: "lex_pos lx < length (source lx) \<and> source lx ! lex_pos lx = c"
    by (rule remaining_ConsD)
  from w cw have c: "isIdentifierChar c" "c \<noteq> CHR ''+''" "c \<noteq> CHR ''-''"
    and all: "list_all isIdentifierChar w"
    by (auto simp: identifier_word_def)
  from rem have d: "drop (lex_pos lx) (source lx) = w @ r" by (simp add: remaining_def)
  then have loop: "identifierLoop (source lx) (lex_pos lx) = lex_pos lx + length w"
    using all r by (rule identifierLoop_run)
  from d have sub: "substring (source lx) (lex_pos lx) (lex_pos lx + length w) = w"
    by (simp add: substring_def)
  from ln cw have ln': "lastNumber lx \<noteq> int (lex_pos lx) - 1 \<or> c \<notin> set NUMBER_SUFFIXES" by simp
  from at identifier_char_facts [OF c(1)] c ln' loop sub show ?thesis
    by (subst lexer_next.simps) (auto simp: Let_def)
qed

subsection \<open>The textual parser on a known source\<close>



lemma eat_step:
  "matches p k v \<Longrightarrow> lexer_next (lexer p) = Inr (tok, lx)
   \<Longrightarrow> eat p k v = Inr (current p, \<lparr>lexer = lx, current = tok\<rparr>)"
  by (simp add: eat_def)

lemma lexer_next_space:
  assumes "remaining lx = CHR '' '' # r"
  shows "lexer_next lx = lexer_next (lx\<lparr>lex_pos := lex_pos lx + 1\<rparr>)"
  by (rule lexer_next_skip [OF assms]) (simp add: SKIP_CHARS_def)



lemma integer_then_word_ignored:
  assumes c: "isDigit c" and ds: "list_all isDigit ds" and w: "identifier_word w"
    and r: "r = [] \<or> \<not> isIdentifierChar (hd r)"
  shows "parseSNBT (Suc fuel) (c # ds @ '' '' @ w @ r) = Inr (IntTag (js_Number (c # ds)))"
proof -
  define src where "src = c # ds @ '' '' @ w @ r"
  define l0 where "l0 = newLexer src"
  define l1 where "l1 = l0\<lparr>lex_pos := lex_pos l0 + 1 + length ds,
                            lastNumber := int (lex_pos l0 + 1 + length ds) - 1\<rparr>"
  define l2 where "l2 = l1\<lparr>lex_pos := lex_pos l1 + 1\<rparr>"
  define l3 where "l3 = l2\<lparr>lex_pos := lex_pos l2 + length w\<rparr>"
  have r0: "remaining l0 = c # ds @ CHR '' '' # w @ r"
    by (simp add: l0_def src_def remaining_def newLexer_def)
  have "remaining l1 = drop (1 + length ds) (remaining l0)"
    unfolding l1_def by (simp add: remaining_def add.commute add.left_commute)
  with r0 have r1: "remaining l1 = CHR '' '' # w @ r" by simp
  have r2: "remaining l2 = w @ r"
    unfolding l2_def remaining_advance r1 by simp
  have n2: "lastNumber l2 \<noteq> int (lex_pos l2) - 1"
    by (simp add: l2_def l1_def)
  have sp: "\<not> isDigit (CHR '' '')" "CHR '' '' \<noteq> CHR ''.''"
    by (simp_all add: isDigit_def charCode_def)
  have t0: "lexer_next l0 = Inr (Token NUMBER (c # ds), l1)"
    unfolding l1_def using sp by (intro lexer_next_integer [OF r0 c ds]) simp
  have "lexer_next l1 = lexer_next l2"
    unfolding l2_def by (rule lexer_next_space [OF r1])
  also have "\<dots> = Inr (Token (if w = ''true'' \<or> w = ''false'' then BOOLEAN else STRING) w, l3)"
    unfolding l3_def using n2 by (intro lexer_next_identifier [OF r2 w r]) simp
  finally have t1: "lexer_next l1
      = Inr (Token (if w = ''true'' \<or> w = ''false'' then BOOLEAN else STRING) w, l3)" .
  have nodot: "CHR ''.'' \<notin> set (c # ds)"
    using c ds by (auto simp: list_all_iff isDigit_def charCode_def)
  have "parseSNBT (Suc fuel) src = Inr (IntTag (js_Number (c # ds)))"
    unfolding parseSNBT_def newSNBTParser_def snbt_parse_def l0_def [symmetric]
    using nodot by (simp add: t0 t1 matches_def eat_def parseNumber_def)
  then show ?thesis by (simp add: src_def)
qed

subsection \<open>More fuel does not change a result\<close>

lemma nbt_fuel_mono_all:
  "(\<forall>t p. parseFromTagType n t p \<noteq> Inl OutOfFuel
        \<longrightarrow> parseFromTagType (n + k) t p = parseFromTagType n t p)
   \<and> (\<forall>p. parseList n p \<noteq> Inl OutOfFuel \<longrightarrow> parseList (n + k) p = parseList n p)
   \<and> (\<forall>t m p items. parseListItems n t m p items \<noteq> Inl OutOfFuel
        \<longrightarrow> parseListItems (n + k) t m p items = parseListItems n t m p items)
   \<and> (\<forall>p. parseCompound n p \<noteq> Inl OutOfFuel \<longrightarrow> parseCompound (n + k) p = parseCompound n p)
   \<and> (\<forall>p items. parseCompoundLoop n p items \<noteq> Inl OutOfFuel
        \<longrightarrow> parseCompoundLoop (n + k) p items = parseCompoundLoop n p items)"
proof (induction n)
  case 0
  show ?case by simp
next
  case (Suc n)
  then have tag: "\<And>t p. parseFromTagType n t p \<noteq> Inl OutOfFuel
        \<Longrightarrow> parseFromTagType (n + k) t p = parseFromTagType n t p"
    and lst: "\<And>p. parseList n p \<noteq> Inl OutOfFuel \<Longrightarrow> parseList (n + k) p = parseList n p"
    and its: "\<And>t m p items. parseListItems n t m p items \<noteq> Inl OutOfFuel
        \<Longrightarrow> parseListItems (n + k) t m p items = parseListItems n t m p items"
    and cmp: "\<And>p. parseCompound n p \<noteq> Inl OutOfFuel \<Longrightarrow> parseCompound (n + k) p = parseCompound n p"
    and lop: "\<And>p items. parseCompoundLoop n p items \<noteq> Inl OutOfFuel
        \<Longrightarrow> parseCompoundLoop (n + k) p items = parseCompoundLoop n p items"
    by blast+
  have 1: "parseFromTagType (Suc n + k) t p = parseFromTagType (Suc n) t p"
    if "parseFromTagType (Suc n) t p \<noteq> Inl OutOfFuel" for t p
    using that lst [of p] cmp [of p] by (auto split: if_splits)
  have 2: "parseList (Suc n + k) p = parseList (Suc n) p"
    if "parseList (Suc n) p \<noteq> Inl OutOfFuel" for p
  proof (cases "expectByte None p")
    case (Inl e)
    then show ?thesis by simp
  next
    case (Inr a)
    then obtain t p1 where a: "expectByte None p = Inr (t, p1)" by (cases a) auto
    show ?thesis
    proof (cases "readInteger 4 p1")
      case (Inl e)
      with a show ?thesis by simp
    next
      case (Inr b)
      then obtain len p2 where b: "readInteger 4 p1 = Inr (len, p2)" by (cases b) auto
      from that a b have "parseListItems n t (nat len) p2 [] \<noteq> Inl OutOfFuel"
        by (auto split: sum.splits)
      from its [OF this] a b show ?thesis by simp
    qed
  qed
  have 3: "parseListItems (Suc n + k) t m p items = parseListItems (Suc n) t m p items"
    if "parseListItems (Suc n) t m p items \<noteq> Inl OutOfFuel" for t m p items
  proof (cases m)
    case 0
    then show ?thesis by simp
  next
    case (Suc m')
    from that Suc have f: "parseFromTagType n t p \<noteq> Inl OutOfFuel"
      by (auto split: sum.splits)
    show ?thesis
    proof (cases "parseFromTagType n t p")
      case (Inl e)
      with tag [OF f] Suc show ?thesis by simp
    next
      case (Inr a)
      then obtain item p' where a: "parseFromTagType n t p = Inr (item, p')" by (cases a) auto
      from that Suc a have "parseListItems n t m' p' (items @ [item]) \<noteq> Inl OutOfFuel"
        by simp
      from its [OF this] tag [OF f] a Suc show ?thesis by simp
    qed
  qed
  have 4: "parseCompound (Suc n + k) p = parseCompound (Suc n) p"
    if "parseCompound (Suc n) p \<noteq> Inl OutOfFuel" for p
    using that lop [of p "[]"] by simp
  have 5: "parseCompoundLoop (Suc n + k) p items = parseCompoundLoop (Suc n) p items"
    if "parseCompoundLoop (Suc n) p items \<noteq> Inl OutOfFuel" for p items
  proof (cases "expectByte None p")
    case (Inl e)
    then show ?thesis by simp
  next
    case (Inr a)
    then obtain t p1 where a: "expectByte None p = Inr (t, p1)" by (cases a) auto
    show ?thesis
    proof (cases "t = Some TAG_End")
      case True
      with a show ?thesis by simp
    next
      case nend: False
      show ?thesis
      proof (cases "parseString p1")
        case (Inl e)
        with a nend show ?thesis by simp
      next
        case (Inr b)
        then obtain name p2 where b: "parseString p1 = Inr (name, p2)" by (cases b) auto
        from that a nend b have f: "parseFromTagType n t p2 \<noteq> Inl OutOfFuel"
          by (auto split: sum.splits)
        show ?thesis
        proof (cases "parseFromTagType n t p2")
          case (Inl e)
          with tag [OF f] a nend b show ?thesis by simp
        next
          case (Inr c)
          then obtain v p3 where c: "parseFromTagType n t p2 = Inr (v, p3)" by (cases c) auto
          show ?thesis
          proof (cases "map_has items name")
            case True
            with tag [OF f] a nend b c show ?thesis by simp
          next
            case False
            with that a nend b c
            have "parseCompoundLoop n p3 (map_set items name v) \<noteq> Inl OutOfFuel" by simp
            from lop [OF this] tag [OF f] a nend b c False show ?thesis by simp
          qed
        qed
      qed
    qed
  qed
  from 1 2 3 4 5 show ?case by blast
qed

lemma parseNBT_fuel_mono:
  "parseNBT n bytes = r \<Longrightarrow> r \<noteq> Inl OutOfFuel \<Longrightarrow> parseNBT (n + k) bytes = r"
proof -
  assume r: "parseNBT n bytes = r" and ok: "r \<noteq> Inl OutOfFuel"
  show ?thesis
  proof (cases "expectByte None \<lparr>data = bytes, pos = 0\<rparr>")
    case (Inl e)
    with r show ?thesis by (simp add: parseNBT_def parse_def)
  next
    case (Inr a)
    then obtain t p1 where a: "expectByte None \<lparr>data = bytes, pos = 0\<rparr> = Inr (t, p1)"
      by (cases a) auto
    show ?thesis
    proof (cases "t = Some TAG_End")
      case True
      with a r show ?thesis by (simp add: parseNBT_def parse_def)
    next
      case nend: False
      show ?thesis
      proof (cases "parseString p1")
        case (Inl e)
        with a nend r show ?thesis by (simp add: parseNBT_def parse_def)
      next
        case (Inr b)
        then obtain name p2 where b: "parseString p1 = Inr (name, p2)" by (cases b) auto
        from r ok a nend b have "parseFromTagType n t p2 \<noteq> Inl OutOfFuel"
          by (auto simp: parseNBT_def parse_def split: sum.splits)
        with nbt_fuel_mono_all [of n k]
        have "parseFromTagType (n + k) t p2 = parseFromTagType n t p2" by blast
        with r a nend b show ?thesis by (simp add: parseNBT_def parse_def)
      qed
    qed
  qed
qed

lemma snbt_fuel_mono_all:
  "(\<forall>p. parseItem n p \<noteq> Inl OutOfFuel \<longrightarrow> parseItem (n + k) p = parseItem n p)
   \<and> (\<forall>p. snbt_parseList n p \<noteq> Inl OutOfFuel \<longrightarrow> snbt_parseList (n + k) p = snbt_parseList n p)
   \<and> (\<forall>p a items first. snbt_parseListLoop n p a items first \<noteq> Inl OutOfFuel
        \<longrightarrow> snbt_parseListLoop (n + k) p a items first = snbt_parseListLoop n p a items first)
   \<and> (\<forall>p. snbt_parseCompound n p \<noteq> Inl OutOfFuel
        \<longrightarrow> snbt_parseCompound (n + k) p = snbt_parseCompound n p)
   \<and> (\<forall>p items first. snbt_parseCompoundLoop n p items first \<noteq> Inl OutOfFuel
        \<longrightarrow> snbt_parseCompoundLoop (n + k) p items first = snbt_parseCompoundLoop n p items first)"
proof (induction n)
  case 0
  show ?case by simp
next
  case (Suc n)
  then have itm: "\<And>p. parseItem n p \<noteq> Inl OutOfFuel \<Longrightarrow> parseItem (n + k) p = parseItem n p"
    and lst: "\<And>p. snbt_parseList n p \<noteq> Inl OutOfFuel
        \<Longrightarrow> snbt_parseList (n + k) p = snbt_parseList n p"
    and llp: "\<And>p a items first. snbt_parseListLoop n p a items first \<noteq> Inl OutOfFuel
        \<Longrightarrow> snbt_parseListLoop (n + k) p a items first = snbt_parseListLoop n p a items first"
    and cmp: "\<And>p. snbt_parseCompound n p \<noteq> Inl OutOfFuel
        \<Longrightarrow> snbt_parseCompound (n + k) p = snbt_parseCompound n p"
    and clp: "\<And>p items first. snbt_parseCompoundLoop n p items first \<noteq> Inl OutOfFuel
        \<Longrightarrow> snbt_parseCompoundLoop (n + k) p items first = snbt_parseCompoundLoop n p items first"
    by blast+
  have 1: "parseItem (Suc n + k) p = parseItem (Suc n) p"
    if "parseItem (Suc n) p \<noteq> Inl OutOfFuel" for p
    using that lst [of p] cmp [of p] by (auto split: if_splits)
  have 2: "snbt_parseList (Suc n + k) p = snbt_parseList (Suc n) p"
    if "snbt_parseList (Suc n) p \<noteq> Inl OutOfFuel" for p
  proof (cases "eat p DELIMITER (Some ''['')")
    case (Inl e)
    then show ?thesis by simp
  next
    case (Inr a)
    then obtain t p1 where a: "eat p DELIMITER (Some ''['') = Inr (t, p1)" by (cases a) auto
    define marker where "marker =
      (if kind (current p1) = STRING \<and>
          (tvalue (current p1) = ''B'' \<or> tvalue (current p1) = ''I'' \<or> tvalue (current p1) = ''L'')
       then (case eat p1 STRING None of Inl e \<Rightarrow> Inl e
             | Inr (tok, p2) \<Rightarrow>
                 (case eat p2 DELIMITER (Some '';'') of Inl e \<Rightarrow> Inl e
                  | Inr (_, p3) \<Rightarrow> Inr (Some (tvalue tok), p3)))
       else Inr (None, p1))"
    show ?thesis
    proof (cases marker)
      case (Inl e)
      with a show ?thesis by (simp add: marker_def)
    next
      case (Inr b)
      then obtain arrayType p4 where b: "marker = Inr (arrayType, p4)" by (cases b) auto
      from that a b have "snbt_parseListLoop n p4 arrayType [] True \<noteq> Inl OutOfFuel"
        by (auto simp: marker_def split: sum.splits)
      from llp [OF this] a b show ?thesis by (simp add: marker_def)
    qed
  qed
  have 3: "snbt_parseListLoop (Suc n + k) p a items first = snbt_parseListLoop (Suc n) p a items first"
    if "snbt_parseListLoop (Suc n) p a items first \<noteq> Inl OutOfFuel" for p a items first
  proof (cases "matches p DELIMITER (Some '']'')")
    case True
    then show ?thesis by simp
  next
    case nclose: False
    define comma where "comma =
      (if \<not> first then (case eat p DELIMITER (Some '','') of Inl e \<Rightarrow> Inl e
                          | Inr (_, p1) \<Rightarrow> Inr p1)
       else Inr p)"
    show ?thesis
    proof (cases comma)
      case (Inl e)
      with nclose show ?thesis by (simp add: comma_def)
    next
      case (Inr p1)
      define element where "element fuel =
        (if a = Some ''B'' then
           (case eatNumberSuffixes p1 KindInt [''b'', ''B''] of Inl e \<Rightarrow> Inl e
            | Inr (s, p2) \<Rightarrow> Inr (NumberItem (js_Number s), p2))
         else if a = Some ''I'' then
           (case eatNumberSuffixes p1 KindInt [''b'', ''B'', ''s'', ''S'', ''i'', ''I''] of
              Inl e \<Rightarrow> Inl e
            | Inr (s, p2) \<Rightarrow> Inr (NumberItem (js_Number s), p2))
         else if a = Some ''L'' then
           (case eatNumberSuffixes p1 KindInt
                   [''b'', ''B'', ''s'', ''S'', ''i'', ''I'', ''l'', ''L''] of
              Inl e \<Rightarrow> Inl e
            | Inr (s, p2) \<Rightarrow>
                (case js_BigInt s of Inl e \<Rightarrow> Inl e | Inr i \<Rightarrow> Inr (BigIntItem i, p2)))
         else
           (case parseItem fuel p1 of Inl e \<Rightarrow> Inl e
            | Inr (t, p2) \<Rightarrow> Inr (TagItem t, p2)))" for fuel
      have unfold: "snbt_parseListLoop (Suc m) p a items first =
          (case element m of Inl e \<Rightarrow> Inl e
           | Inr (item, p2) \<Rightarrow> snbt_parseListLoop m p2 a (items @ [item]) False)" for m
        using nclose Inr by (simp add: comma_def element_def)
      from that have el: "element n \<noteq> Inl OutOfFuel"
        unfolding unfold by (auto split: sum.splits)
      have same: "element (n + k) = element n"
      proof (cases "a = Some ''B'' \<or> a = Some ''I'' \<or> a = Some ''L''")
        case True
        then show ?thesis by (auto simp: element_def)
      next
        case False
        with el have "parseItem n p1 \<noteq> Inl OutOfFuel"
          by (auto simp: element_def split: sum.splits)
        from itm [OF this] False show ?thesis by (simp add: element_def)
      qed
      show ?thesis
      proof (cases "element n")
        case (Inl e)
        with same show ?thesis unfolding add_Suc unfold by simp
      next
        case (Inr b)
        then obtain item p2 where b: "element n = Inr (item, p2)" by (cases b) auto
        from that b have "snbt_parseListLoop n p2 a (items @ [item]) False \<noteq> Inl OutOfFuel"
          unfolding unfold by simp
        from llp [OF this] same b show ?thesis unfolding add_Suc unfold by simp
      qed
    qed
  qed
  have 4: "snbt_parseCompound (Suc n + k) p = snbt_parseCompound (Suc n) p"
    if "snbt_parseCompound (Suc n) p \<noteq> Inl OutOfFuel" for p
  proof (cases "eat p DELIMITER (Some ''{'')")
    case (Inl e)
    then show ?thesis by simp
  next
    case (Inr a)
    then obtain t p1 where a: "eat p DELIMITER (Some ''{'') = Inr (t, p1)" by (cases a) auto
    from that a have "snbt_parseCompoundLoop n p1 [] True \<noteq> Inl OutOfFuel"
      by (auto split: sum.splits)
    from clp [OF this] a show ?thesis by simp
  qed
  have 5: "snbt_parseCompoundLoop (Suc n + k) p items first = snbt_parseCompoundLoop (Suc n) p items first"
    if "snbt_parseCompoundLoop (Suc n) p items first \<noteq> Inl OutOfFuel" for p items first
  proof (cases "matches p DELIMITER (Some ''}'')")
    case True
    then show ?thesis by simp
  next
    case nclose: False
    define entry where "entry =
      (case (if \<not> first then (case eat p DELIMITER (Some '','') of Inl e \<Rightarrow> Inl e
                                | Inr (_, p1) \<Rightarrow> Inr p1)
             else Inr p)
       of Inl e \<Rightarrow> Inl e
       | Inr p1 \<Rightarrow>
           (case eat p1 STRING None of Inl e \<Rightarrow> Inl e
            | Inr (key, p2) \<Rightarrow>
                (case eat p2 DELIMITER (Some '':'') of Inl e \<Rightarrow> Inl e
                 | Inr (_, p3) \<Rightarrow> Inr (key, p3))))"
    have unfold: "snbt_parseCompoundLoop (Suc m) p items first =
        (case entry of Inl e \<Rightarrow> Inl e
         | Inr (key, p3) \<Rightarrow>
             (case parseItem m p3 of Inl e \<Rightarrow> Inl e
              | Inr (v, p4) \<Rightarrow> snbt_parseCompoundLoop m p4 (map_set items (tvalue key) v) False))" for m
      using nclose by (auto simp: entry_def split: sum.splits)
    show ?thesis
    proof (cases entry)
      case (Inl e)
      then show ?thesis unfolding add_Suc unfold by simp
    next
      case (Inr a)
      then obtain key p3 where a: "entry = Inr (key, p3)" by (cases a) auto
      from that a have f: "parseItem n p3 \<noteq> Inl OutOfFuel"
        unfolding unfold by (auto split: sum.splits)
      show ?thesis
      proof (cases "parseItem n p3")
        case (Inl e)
        with itm [OF f] a show ?thesis unfolding add_Suc unfold by simp
      next
        case (Inr b)
        then obtain v p4 where b: "parseItem n p3 = Inr (v, p4)" by (cases b) auto
        from that a b
        have "snbt_parseCompoundLoop n p4 (map_set items (tvalue key) v) False \<noteq> Inl OutOfFuel"
          unfolding unfold by simp
        from clp [OF this] itm [OF f] a b show ?thesis unfolding add_Suc unfold by simp
      qed
    qed
  qed
  from 1 2 3 4 5 show ?case by blast
qed

lemma parseSNBT_fuel_mono:
  "parseSNBT n src = r \<Longrightarrow> r \<noteq> Inl OutOfFuel \<Longrightarrow> parseSNBT (n + k) src = r"
proof -
  assume r: "parseSNBT n src = r" and ok: "r \<noteq> Inl OutOfFuel"
  show ?thesis
  proof (cases "newSNBTParser src")
    case (Inl e)
    with r show ?thesis by (simp add: parseSNBT_def)
  next
    case (Inr p)
    with r ok have "parseItem n p \<noteq> Inl OutOfFuel"
      by (auto simp: parseSNBT_def snbt_parse_def split: sum.splits)
    with snbt_fuel_mono_all [of n k] have "parseItem (n + k) p = parseItem n p" by blast
    with r Inr show ?thesis by (simp add: parseSNBT_def snbt_parse_def)
  qed
qed

subsection \<open>The output buffer after a growth\<close>

lemma growBuffer_drops_view:
  "length (buffer ctx) \<le> pointer ctx + bytes \<Longrightarrow> view (growBuffer ctx bytes) = 0"
  by (simp add: growBuffer_def)

lemma dumpInteger_fails_without_view:
  "bytes = 2 \<or> bytes = 4 \<or> bytes = 8 \<Longrightarrow> view (growBuffer ctx bytes) = 0
   \<Longrightarrow> dumpInteger ctx bytes v = Inl RangeError"
  by (auto simp: dumpInteger_def view_set_def Let_def length_be_bytes growBuffer_def)

subsection \<open>The entry loop of the binary decoder\<close>












subsection \<open>The entry loop of the textual parser\<close>





subsection \<open>A compound written as a list of entries\<close>







section \<open>The claims\<close>

text \<open>
  Claim C1 (the code departs from it). The claim: decoding the encoding of a tree gives
  the tree back (for a root that is a one-entry compound), or its one-entry wrapper (for
  any other root). The code: for a one-entry compound \<open>dump\<close> writes the id of the root,
  which is always Compound, where the decoder expects the id of the entry's value; the Int
  5 under the key \<open>a\<close> is then read back as an empty compound. For another root,
  \<open>dump\<close> writes the root's id and value where the decoder expects the entries of a
  compound, and the decoder fails.
\<close>

theorem C1_round_trip_fails:
  "dump (CompoundTag [(''a'', IntTag (Finite 5))]) = Inr [10, 0, 1, 97, 0, 0, 0, 5]
   \<and> parseNBT (10 + k) (new_Uint8Array [10, 0, 1, 97, 0, 0, 0, 5]) = Inr (CompoundTag [(''a'', CompoundTag [])])
   \<and> dump (IntTag (Finite 5)) = Inr [10, 0, 0, 3, 0, 0, 0, 5]
   \<and> parseNBT (10 + k) (new_Uint8Array [10, 0, 0, 3, 0, 0, 0, 5]) = Inl UnexpectedEOF"
proof -
  have enc: "dump (CompoundTag [(''a'', IntTag (Finite 5))]) = Inr [10, 0, 1, 97, 0, 0, 0, 5]
      \<and> dump (IntTag (Finite 5)) = Inr [10, 0, 0, 3, 0, 0, 0, 5]"
    by code_simp
  have d1: "parseNBT 10 (new_Uint8Array [10, 0, 1, 97, 0, 0, 0, 5]) = Inr (CompoundTag [(''a'', CompoundTag [])])"
    by code_simp
  have d2: "parseNBT 10 (new_Uint8Array [10, 0, 0, 3, 0, 0, 0, 5]) = Inl UnexpectedEOF"
    by code_simp
  from enc parseNBT_fuel_mono [OF d1, of k] parseNBT_fuel_mono [OF d2, of k]
  show ?thesis by simp
qed

text \<open>
  Claim C2 (the code departs from it). The claim: encoding never fails, whatever the
  size of the tree, and no multi-byte or raw append after a growth of the buffer raises an
  error. The code: \<open>growBuffer\<close> replaces the view by one of length 0, so the first
  fixed-width write after a growth throws a \<open>RangeError\<close>; and it doubles the array
  once, so a raw append that needs more throws too. The first tree below is a compound
  with one key of 250 characters and an Int value: the key fills the first array up to
  byte 253, the Int makes the buffer grow, and its write fails. The second is a byte array
  of 600 elements, which do not fit in the doubled array of 512 bytes.
\<close>

theorem C2_encode_fails_after_growth:
  "dump (CompoundTag [(replicate 250 (CHR ''a''), IntTag (Finite 0))]) = Inl RangeError
   \<and> dump (ByteArrayTag (replicate 600 (Finite 0))) = Inl RangeError"
proof -
  have key: "dump (CompoundTag [(replicate 250 (CHR ''a''), IntTag (Finite 0))]) = Inl RangeError"
    by (simp add: dump_def newDumpContext_def dumpString_def dumpByte_def growBuffer_def
        dumpUnsignedInteger_def dumpInteger_def view_set_def dumpRaw_def text_encode_def
        length_write_bytes length_be_bytes Let_def)
  have raw: "dump (ByteArrayTag (replicate 600 (Finite 0))) = Inl RangeError"
    by (simp add: dump_def newDumpContext_def dumpString_def dumpByte_def growBuffer_def
        dumpUnsignedInteger_def dumpInteger_def view_set_def dumpRaw_def text_encode_def
        dumpTag_def dumpByteArray_def length_write_bytes length_be_bytes Let_def)
  from key raw show ?thesis by simp
qed

text \<open>
  Claim C3 (the code departs from it). The claim: a multi-byte read fails with the
  end-of-input error exactly when fewer bytes than its width remain, and a read that ends
  on the last byte of the buffer is decoded. The code: the bounds check of every
  fixed-width read, and of the body of a string and of a byte array, is
  \<open>pos + bytes >= length\<close>, so the read also fails when exactly \<open>bytes\<close> bytes
  remain. The first buffer below is an Int named by the empty string whose four payload
  bytes end the buffer; it is refused, and it decodes once a byte follows. The second is a
  String whose one-byte body ends the buffer.
\<close>

theorem C3_exact_fit_is_refused:
  "(\<forall>bytes p. (readInteger bytes p = Inl UnexpectedEOF)
       = (int (length (elements (data p))) \<le> pos p + int bytes))
   \<and> (\<forall>bytes p. (readUnsignedInteger bytes p = Inl UnexpectedEOF)
       = (int (length (elements (data p))) \<le> pos p + int bytes))
   \<and> (\<forall>bytes p. (readFLoat bytes p = Inl UnexpectedEOF)
       = (int (length (elements (data p))) \<le> pos p + int bytes))
   \<and> parseNBT (10 + k) (new_Uint8Array [3, 0, 0, 0, 0, 0, 5]) = Inl UnexpectedEOF
   \<and> parseNBT (10 + k) (new_Uint8Array [3, 0, 0, 0, 0, 0, 5, 0]) = Inr (CompoundTag [([], IntTag (Finite 5))])
   \<and> parseNBT (10 + k) (new_Uint8Array [8, 0, 0, 0, 1, 97]) = Inl UnexpectedEOF
   \<and> parseNBT (10 + k) (new_Uint8Array [8, 0, 0, 0, 1, 97, 0]) = Inr (CompoundTag [([], StringTag ''a'')])"
proof -
  have g1: "\<forall>bytes p. (readInteger bytes p = Inl UnexpectedEOF)
       = (int (length (elements (data p))) \<le> pos p + int bytes)"
    by (auto simp: readInteger_def view_get_def split: sum.splits)
  have g2: "\<forall>bytes p. (readUnsignedInteger bytes p = Inl UnexpectedEOF)
       = (int (length (elements (data p))) \<le> pos p + int bytes)"
    by (auto simp: readUnsignedInteger_def view_get_def split: sum.splits)
  have g3: "\<forall>bytes p. (readFLoat bytes p = Inl UnexpectedEOF)
       = (int (length (elements (data p))) \<le> pos p + int bytes)"
    by (auto simp: readFLoat_def view_get_def split: sum.splits)
  have exact: "parseNBT 10 (new_Uint8Array [3, 0, 0, 0, 0, 0, 5]) = Inl UnexpectedEOF"
    by code_simp
  have longer: "parseNBT 10 (new_Uint8Array [3, 0, 0, 0, 0, 0, 5, 0]) = Inr (CompoundTag [([], IntTag (Finite 5))])"
    by code_simp
  have str: "parseNBT 10 (new_Uint8Array [8, 0, 0, 0, 1, 97]) = Inl UnexpectedEOF"
    by code_simp
  have str': "parseNBT 10 (new_Uint8Array [8, 0, 0, 0, 1, 97, 0]) = Inr (CompoundTag [([], StringTag ''a'')])"
    by code_simp
  from g1 g2 g3 parseNBT_fuel_mono [OF exact, of k] parseNBT_fuel_mono [OF longer, of k]
    parseNBT_fuel_mono [OF str, of k] parseNBT_fuel_mono [OF str', of k]
  show ?thesis by simp
qed

text \<open>
  Claim C4, amended. The claim: inside a quoted string only a backslash before the opening
  delimiter is an escape, and a backslash before any other character, the other quote
  character included, is kept with that character. The code: the switch on the character
  behind a backslash has a case for each of the two quote characters, and both append the
  opening delimiter. So, for every lexer in front of a quoted string whose body is closed,
  the token is a STRING whose value is \<open>unescape\<close> of the body: a backslash before
  either quote character gives the opening delimiter, a backslash before any other
  character is kept and the character behind it is read on its own; the lexer ends behind
  the closing delimiter.
\<close>

theorem C4_quoted_string_escapes:
  "q = DQUOTE \<or> q = SQUOTE \<Longrightarrow> closed_body q body \<Longrightarrow> remaining lx = q # body @ q # r
   \<Longrightarrow> lexer_next lx
       = Inr (Token STRING (unescape q body), lx\<lparr>lex_pos := lex_pos lx + length body + 2\<rparr>)"
  by (rule lexer_next_quoted)

theorem C4_witness:
  "lexer_next (newLexer (DQUOTE # ''a'' @ [BACKSLASH, SQUOTE] @ ''b'' @ [BACKSLASH] @ ''n'' @ [DQUOTE]))
   = Inr (Token STRING (''a'' @ [DQUOTE] @ ''b'' @ [BACKSLASH] @ ''n''),
          \<lparr>source = DQUOTE # ''a'' @ [BACKSLASH, SQUOTE] @ ''b'' @ [BACKSLASH] @ ''n'' @ [DQUOTE],
           lex_pos = 8, lastNumber = - 777\<rparr>)"
proof -
  have q: "DQUOTE = DQUOTE \<or> DQUOTE = SQUOTE" by simp
  have b: "closed_body DQUOTE (''a'' @ [BACKSLASH, SQUOTE] @ ''b'' @ [BACKSLASH] @ ''n'')"
    by simp
  have r: "remaining (newLexer (DQUOTE # ''a'' @ [BACKSLASH, SQUOTE] @ ''b'' @ [BACKSLASH] @ ''n'' @ [DQUOTE]))
      = DQUOTE # (''a'' @ [BACKSLASH, SQUOTE] @ ''b'' @ [BACKSLASH] @ ''n'') @ DQUOTE # []"
    by (simp add: remaining_def newLexer_def)
  from C4_quoted_string_escapes [OF q b r] show ?thesis
    by (simp add: newLexer_def)
qed

text \<open>
  The input that refutes claim C4 as it is written: in a string opened by a double quote,
  a backslash before a single quote gives a double quote, where the claim keeps the
  backslash and the single quote.
\<close>

theorem C4_counterexample:
  "lexer_next (newLexer [DQUOTE, BACKSLASH, SQUOTE, DQUOTE])
     = Inr (Token STRING [DQUOTE],
            \<lparr>source = [DQUOTE, BACKSLASH, SQUOTE, DQUOTE], lex_pos = 4, lastNumber = - 777\<rparr>)
   \<and> claimed_unescape DQUOTE [BACKSLASH, SQUOTE] = [BACKSLASH, SQUOTE]"
  by code_simp

text \<open>
  Claim C5 (the code departs from it). The claim: each of the twelve letters
  \<open>b B s S i I l L f F d D\<close> right after a number token is a SUFFIX token, and
  \<open>parseText("5.0D")\<close> is the Double 5.0. The code: the lexer's table
  \<open>NUMBER_SUFFIXES\<close> holds \<open>d\<close> twice and \<open>D\<close> never, while the parser's switch
  has a case for \<open>D\<close>. After the number \<open>5.0\<close> the letter \<open>D\<close> is lexed as a
  STRING token, and the text parses to the Float 5.0; with \<open>d\<close> it is the Double.
\<close>

theorem C5_upper_D_is_no_suffix:
  "set NUMBER_SUFFIXES = set ''bBsSiIlLfFd''
   \<and> lexer_next \<lparr>source = ''5.0D'', lex_pos = 3, lastNumber = 2\<rparr>
     = Inr (Token STRING ''D'', \<lparr>source = ''5.0D'', lex_pos = 4, lastNumber = 2\<rparr>)
   \<and> parseSNBT (10 + k) ''5.0D'' = Inr (FloatTag (Finite 5))
   \<and> parseSNBT (10 + k) ''5.0d'' = Inr (DoubleTag (Finite 5))"
proof -
  have table: "set NUMBER_SUFFIXES = set ''bBsSiIlLfFd''"
    by (auto simp: NUMBER_SUFFIXES_def)
  have lex: "lexer_next \<lparr>source = ''5.0D'', lex_pos = 3, lastNumber = 2\<rparr>
     = Inr (Token STRING ''D'', \<lparr>source = ''5.0D'', lex_pos = 4, lastNumber = 2\<rparr>)"
    by code_simp
  have upper: "parseSNBT 10 ''5.0D'' = Inr (FloatTag (Finite 5))"
    by code_simp
  have lower: "parseSNBT 10 ''5.0d'' = Inr (DoubleTag (Finite 5))"
    by code_simp
  from table lex parseSNBT_fuel_mono [OF upper, of k] parseSNBT_fuel_mono [OF lower, of k]
  show ?thesis by simp
qed

text \<open>
  Claim C6 (the code departs from it). The claim: a plain number item whose literal is
  float-shaped and whose suffix is \<open>b\<close>, \<open>s\<close>, \<open>i\<close> or \<open>l\<close> is a parse error, and
  so is an integer-shaped literal where a float is asked for; \<open>parseText("5.0b")\<close> fails.
  The code: \<open>parseNumber\<close> never compares the shape of the literal with the suffix; the
  check is in \<open>eatNumberSuffixes\<close>, which only the elements of typed arrays go through.
  So \<open>5.0b\<close> is the Byte 5 and \<open>5.5b\<close> a Byte holding 5.5, \<open>5.0s\<close> and \<open>5.0i\<close>
  are the Short and the Int 5, and \<open>5f\<close> is the Float 5; with \<open>l\<close> the float-shaped
  literal does fail, in the host's \<open>BigInt\<close>. Inside a byte array the literal \<open>5.0b\<close>
  is refused by the check that \<open>parseNumber\<close> lacks.
\<close>

theorem C6_float_literal_takes_integer_suffix:
  "parseSNBT (10 + k) ''5.0b'' = Inr (ByteTag (Finite 5))
   \<and> parseSNBT (10 + k) ''5.5b'' = Inr (ByteTag (Finite (11 / 2)))
   \<and> parseSNBT (10 + k) ''5.0s'' = Inr (ShortTag (Finite 5))
   \<and> parseSNBT (10 + k) ''5.0i'' = Inr (IntTag (Finite 5))
   \<and> parseSNBT (10 + k) ''5f'' = Inr (FloatTag (Finite 5))
   \<and> parseSNBT (10 + k) ''5.0l'' = Inl SyntaxError
   \<and> parseSNBT (10 + k) ''[B; 5.0b]'' = Inl ExpectedWhole"
proof -
  have b: "parseSNBT 10 ''5.0b'' = Inr (ByteTag (Finite 5))"
    by code_simp
  have b': "parseSNBT 10 ''5.5b'' = Inr (ByteTag (Finite (11 / 2)))"
    by code_simp
  have s: "parseSNBT 10 ''5.0s'' = Inr (ShortTag (Finite 5))"
    by code_simp
  have i: "parseSNBT 10 ''5.0i'' = Inr (IntTag (Finite 5))"
    by code_simp
  have f: "parseSNBT 10 ''5f'' = Inr (FloatTag (Finite 5))"
    by code_simp
  have l: "parseSNBT 10 ''5.0l'' = Inl SyntaxError"
    by code_simp
  have arr: "parseSNBT 10 ''[B; 5.0b]'' = Inl ExpectedWhole"
    by code_simp
  from parseSNBT_fuel_mono [OF b, of k] parseSNBT_fuel_mono [OF b', of k]
    parseSNBT_fuel_mono [OF s, of k] parseSNBT_fuel_mono [OF i, of k]
    parseSNBT_fuel_mono [OF f, of k] parseSNBT_fuel_mono [OF l, of k]
    parseSNBT_fuel_mono [OF arr, of k]
  show ?thesis by simp
qed



text \<open>
  Claim C8. Whenever \<open>decodeBinary\<close> returns, its value is a compound with exactly one
  entry: the name read behind the leading tag id, mapped to the value read for that id
  (a compound, if the id is Compound: the wrapper is one level more). For every array
  that starts with the End id it fails, with the invalid-root error.
\<close>

theorem C8_decode_wraps_root:
  "(\<forall>v. parseNBT fuel bytes = Inr v \<longrightarrow>
      (\<exists>tagId p1 name p2 val p3.
          expectByte None \<lparr>data = bytes, pos = 0\<rparr> = Inr (tagId, p1)
        \<and> tagId \<noteq> Some TAG_End
        \<and> parseString p1 = Inr (name, p2)
        \<and> parseFromTagType fuel tagId p2 = Inr (val, p3)
        \<and> v = CompoundTag [(name, val)]))
   \<and> parseNBT fuel \<lparr>bytes_before = front, elements = TAG_End # rest, bytes_after = back\<rparr>
       = Inl (InvalidRoot TAG_End)"
proof (intro conjI allI impI)
  fix v
  assume ok: "parseNBT fuel bytes = Inr v"
  then show "\<exists>tagId p1 name p2 val p3.
          expectByte None \<lparr>data = bytes, pos = 0\<rparr> = Inr (tagId, p1)
        \<and> tagId \<noteq> Some TAG_End
        \<and> parseString p1 = Inr (name, p2)
        \<and> parseFromTagType fuel tagId p2 = Inr (val, p3)
        \<and> v = CompoundTag [(name, val)]"
    by (auto simp: parseNBT_def parse_def split: sum.splits prod.splits if_splits)
next
  show "parseNBT fuel \<lparr>bytes_before = front, elements = TAG_End # rest, bytes_after = back\<rparr>
      = Inl (InvalidRoot TAG_End)"
    by (simp add: parseNBT_def parse_def expectByte_def data_at_def)
qed

theorem C8_witness:
  "parseNBT 10 (new_Uint8Array [10, 0, 1, 97, 0]) = Inr (CompoundTag [(''a'', CompoundTag [])])
   \<and> (\<exists>tagId p1 name p2 val p3.
          expectByte None \<lparr>data = new_Uint8Array [10, 0, 1, 97, 0], pos = 0\<rparr> = Inr (tagId, p1)
        \<and> tagId \<noteq> Some TAG_End
        \<and> parseString p1 = Inr (name, p2)
        \<and> parseFromTagType 10 tagId p2 = Inr (val, p3)
        \<and> CompoundTag [(''a'', CompoundTag [])] = CompoundTag [(name, val)])
   \<and> parseNBT 10 (new_Uint8Array [0, 0, 1, 97, 0]) = Inl (InvalidRoot TAG_End)"
proof -
  have run: "parseNBT 10 (new_Uint8Array [10, 0, 1, 97, 0])
      = Inr (CompoundTag [(''a'', CompoundTag [])])"
    by code_simp
  from C8_decode_wraps_root [of 10 "new_Uint8Array [10, 0, 1, 97, 0]" "[]" "[0, 1, 97, 0]" "[]"] run
  show ?thesis unfolding new_Uint8Array_def by blast
qed

text \<open>
  Claim C9 (the code departs from it). The claim: a decoded Byte and every decoded
  ByteArray element is a signed 8-bit value, \<open>0xFF\<close> decoding to \<open>-1\<close>, and encoding
  then decoding keeps the value. The code: both are read from the \<open>Uint8Array\<close>, unsigned.
  A Byte payload \<open>0xFF\<close> decodes to 255, so does a ByteArray element, and the Byte
  \<open>-1\<close> inside a compound comes back from encode and decode as 255.
\<close>

theorem C9_byte_is_read_unsigned:
  "parseNBT (10 + k) (new_Uint8Array [1, 0, 0, 255]) = Inr (CompoundTag [([], ByteTag (Finite 255))])
   \<and> parseNBT (10 + k) (new_Uint8Array [7, 0, 0, 0, 0, 0, 1, 255, 0])
       = Inr (CompoundTag [([], ByteArrayTag [Finite 255])])
   \<and> dump (CompoundTag [(''a'', CompoundTag [(''b'', ByteTag (Finite (- 1)))])])
       = Inr [10, 0, 1, 97, 1, 0, 1, 98, 255, 0]
   \<and> parseNBT (10 + k) (new_Uint8Array [10, 0, 1, 97, 1, 0, 1, 98, 255, 0])
       = Inr (CompoundTag [(''a'', CompoundTag [(''b'', ByteTag (Finite 255))])])"
proof -
  have d1: "parseNBT 10 (new_Uint8Array [1, 0, 0, 255]) = Inr (CompoundTag [([], ByteTag (Finite 255))])"
    by code_simp
  have d2: "parseNBT 10 (new_Uint8Array [7, 0, 0, 0, 0, 0, 1, 255, 0])
       = Inr (CompoundTag [([], ByteArrayTag [Finite 255])])"
    by code_simp
  have enc: "dump (CompoundTag [(''a'', CompoundTag [(''b'', ByteTag (Finite (- 1)))])])
       = Inr [10, 0, 1, 97, 1, 0, 1, 98, 255, 0]"
    by code_simp
  have d3: "parseNBT 10 (new_Uint8Array [10, 0, 1, 97, 1, 0, 1, 98, 255, 0])
       = Inr (CompoundTag [(''a'', CompoundTag [(''b'', ByteTag (Finite 255))])])"
    by code_simp
  from enc parseNBT_fuel_mono [OF d1, of k] parseNBT_fuel_mono [OF d2, of k]
    parseNBT_fuel_mono [OF d3, of k]
  show ?thesis by simp
qed

text \<open>
  Claim C10. \<open>parseText\<close> parses one item and does not ask for the end of the input.
  For every integer literal, a space, a word and any text behind the word that does not
  go on with a word character, the result is the Int that holds \<open>Number\<close> of the literal
  (the double nearest to it): the word is lexed as the token after the item and the rest is
  never read. On \<open>1 2\<close> the result is the Int 1, on \<open>{} extra\<close> the empty compound.
\<close>

theorem C10_trailing_tokens_ignored:
  "(isDigit c \<and> list_all isDigit ds \<and> identifier_word w \<and> (r = [] \<or> \<not> isIdentifierChar (hd r))
    \<longrightarrow> parseSNBT (fuel + 1) (c # ds @ '' '' @ w @ r) = Inr (IntTag (js_Number (c # ds))))
   \<and> parseSNBT (10 + fuel) ''1 2'' = Inr (IntTag (Finite 1))
   \<and> parseSNBT (10 + fuel) ''{} extra'' = Inr (CompoundTag [])"
proof -
  have one: "parseSNBT 10 ''1 2'' = Inr (IntTag (Finite 1))"
    by code_simp
  have two: "parseSNBT 10 ''{} extra'' = Inr (CompoundTag [])"
    by code_simp
  from integer_then_word_ignored [of c ds w r fuel]
    parseSNBT_fuel_mono [OF one, of fuel] parseSNBT_fuel_mono [OF two, of fuel]
  show ?thesis by simp
qed

theorem C10_witness:
  "parseSNBT 10 ''12 x@#'' = Inr (IntTag (Finite 12))
   \<and> parseSNBT 10 ''9007199254740993 x'' = Inr (IntTag (Finite 9007199254740992))"
proof -
  have h: "isDigit (CHR ''1'')" "list_all isDigit ''2''" "identifier_word ''x''"
    "\<not> isIdentifierChar (hd ''@#'')" "isDigit (CHR ''9'')" "list_all isDigit ''007199254740993''"
    by (simp_all add: isDigit_def identifier_word_def isIdentifierChar_def charCode_def
        IDENTIFIER_OTHER_def)
  have v: "js_Number ''12'' = Finite 12" "js_Number ''9007199254740993'' = Finite 9007199254740992"
    by code_simp+
  from C10_trailing_tokens_ignored [of "CHR ''1''" "''2''" "''x''" "''@#''" 9]
    C10_trailing_tokens_ignored [of "CHR ''9''" "''007199254740993''" "''x''" "[]" 9] h v
  show ?thesis by simp
qed

end
